theory Spec2Isabelle
  imports Main
begin

section \<open>Card and Configuration model (card.py)\<close>

text \<open>
  The enumerations of card.py. Python's \<open>list(EnumClass)\<close> yields the members in
  declaration order; the \<open>_members\<close> lists below are those lists. \<open>LabColor\<close> and
  \<open>AmoebaColor\<close> both have a member called RED in the source; the lab colours carry a
  prefix here because HOL constructors share one name space.
\<close>

datatype Direction = CLK_WISE | COUNTER_CLK_WISE

datatype LabColor = LAB_RED | LAB_GREEN | LAB_YELLOW

datatype AmoebaColor = RED | BLUE

datatype Pattern = STRIPED | DOTTY

datatype Eye = SINGLE | DOUBLE

definition Direction_members :: "Direction list" where
  "Direction_members = [CLK_WISE, COUNTER_CLK_WISE]"

definition AmoebaColor_members :: "AmoebaColor list" where
  "AmoebaColor_members = [RED, BLUE]"

definition Pattern_members :: "Pattern list" where
  "Pattern_members = [STRIPED, DOTTY]"

definition Eye_members :: "Eye list" where
  "Eye_members = [SINGLE, DOUBLE]"

text \<open>
  Every exception the modelled code can raise. \<open>NoLabCards\<close> is the RuntimeError of
  \<open>simulate\<close>, \<open>NeighborsNotConfigured\<close> (with the card's line number) the
  RuntimeError of \<open>Card.get_next\<close>; the others are Python's built-in exceptions of
  \<open>list.index\<close>, sequence indexing, dictionary lookup and \<open>%\<close>.
\<close>

datatype error =
    NoLabCards
  | NeighborsNotConfigured int
  | ValueError
  | IndexError
  | KeyError
  | ZeroDivisionError

text \<open>\<open>members.index(member)\<close>: the first position of the member, ValueError if absent.\<close>

fun index_of :: "'a list \<Rightarrow> 'a \<Rightarrow> nat option" where
  "index_of [] member = None"
| "index_of (m # ms) member =
     (if m = member then Some 0 else map_option Suc (index_of ms member))"

text \<open>
  \<open>_rotate_enum_value\<close>. The source obtains the member list from the member's class;
  here it is the first argument.
\<close>

definition rotate_enum_value :: "'a list \<Rightarrow> 'a \<Rightarrow> error + 'a" where
  "rotate_enum_value members member =
     (case index_of members member of
        None \<Rightarrow> Inl ValueError
      | Some current_index \<Rightarrow> Inr (members ! ((current_index + 1) mod length members)))"

record Configuration =
  color :: AmoebaColor
  pattern :: Pattern
  eye :: Eye

text \<open>
  \<open>Configuration.evolve\<close> mutates the object in place; the model returns the new
  value, and the caller stores it back at the object's address (see \<open>is_matched\<close>).
\<close>

definition evolve :: "Configuration \<Rightarrow> bool \<Rightarrow> bool \<Rightarrow> bool \<Rightarrow> error + Configuration" where
  "evolve self evolve_color evolve_pattern evolve_eye =
     (case (if evolve_color
            then (case rotate_enum_value AmoebaColor_members (color self) of
                    Inl e \<Rightarrow> Inl e
                  | Inr v \<Rightarrow> Inr (self\<lparr>color := v\<rparr>))
            else Inr self) of
        Inl e \<Rightarrow> Inl e
      | Inr self1 \<Rightarrow>
     (case (if evolve_pattern
            then (case rotate_enum_value Pattern_members (pattern self1) of
                    Inl e \<Rightarrow> Inl e
                  | Inr v \<Rightarrow> Inr (self1\<lparr>pattern := v\<rparr>))
            else Inr self1) of
        Inl e \<Rightarrow> Inl e
      | Inr self2 \<Rightarrow>
        (if evolve_eye
         then (case rotate_enum_value Eye_members (eye self2) of
                 Inl e \<Rightarrow> Inl e
               | Inr v \<Rightarrow> Inr (self2\<lparr>eye := v\<rparr>))
         else Inr self2)))"

text \<open>
  The four card classes. Python objects have identity and are shared by reference, so
  the model keeps them in stores and refers to them by address: a card is addressed by
  its position in the card sequence (the parser creates one fresh object per line, so
  the cards of a sequence are pairwise distinct objects), and a \<open>Configuration\<close> object
  by its position in a store of configurations. An \<open>AmoebaCard\<close> holds the address of
  its target configuration; the two neighbour fields hold card addresses, \<open>None\<close> until
  \<open>set_neighbors\<close> has run.
\<close>

datatype CardKind =
    LabCard LabColor
  | AmoebaCard nat
  | VentCard
  | EvolutionCard bool bool bool

record Card =
  line_number :: int
  kind :: CardKind
  clk_wise_neighbor :: "nat option"
  counter_clk_wise_neighbor :: "nat option"

definition is_VentCard :: "Card \<Rightarrow> bool" where
  "is_VentCard crd = (case kind crd of VentCard \<Rightarrow> True | _ \<Rightarrow> False)"

definition is_LabCard :: "Card \<Rightarrow> bool" where
  "is_LabCard crd = (case kind crd of LabCard _ \<Rightarrow> True | _ \<Rightarrow> False)"

definition set_neighbors :: "Card \<Rightarrow> nat \<Rightarrow> nat \<Rightarrow> Card" where
  "set_neighbors self clk_neighbor counter_neighbor =
     self\<lparr>clk_wise_neighbor := Some clk_neighbor,
          counter_clk_wise_neighbor := Some counter_neighbor\<rparr>"

definition get_next :: "Card \<Rightarrow> Direction \<Rightarrow> error + nat" where
  "get_next self direction =
     (case (if direction = CLK_WISE then clk_wise_neighbor self
            else counter_clk_wise_neighbor self) of
        None \<Rightarrow> Inl (NeighborsNotConfigured (line_number self))
      | Some neighbor \<Rightarrow> Inr neighbor)"

section \<open>Ring topology builder (simulator.py)\<close>

text \<open>
  \<open>_walk_to_non_vent\<close>. The while loop has no bound in the source, so it is a partial
  function: \<open>None\<close> is a walk that never returns. Python's \<open>%\<close> with a positive
  modulus gives a result in \<open>0..<num_cards\<close>, as \<open>mod\<close> on \<open>int\<close> does; with an empty
  sequence \<open>start_index % num_cards\<close> raises ZeroDivisionError.
\<close>

partial_function (option) walk_loop :: "Card list \<Rightarrow> int \<Rightarrow> int \<Rightarrow> nat option" where
  "walk_loop cards index step =
     (if is_VentCard (cards ! nat index)
      then walk_loop cards ((index + step) mod int (length cards)) step
      else Some (nat index))"

declare walk_loop.simps [code]

definition walk_to_non_vent :: "Card list \<Rightarrow> int \<Rightarrow> int \<Rightarrow> (error + nat) option" where
  "walk_to_non_vent cards start_index step =
     (if length cards = 0 then Some (Inl ZeroDivisionError)
      else map_option Inr (walk_loop cards (start_index mod int (length cards)) step))"

text \<open>
  \<open>_link_vents\<close>: the loop over \<open>enumerate(vent_indices)\<close>, threading the card
  sequence it mutates. It is entered only with two or more vents, hence with
  \<open>num_cards \<ge> 2\<close>, so its own \<open>%\<close> never divides by zero.
\<close>

fun link_loop :: "nat list \<Rightarrow> (nat \<times> nat) list \<Rightarrow> Card list \<Rightarrow> (error + Card list) option" where
  "link_loop vent_indices [] cards = Some (Inr cards)"
| "link_loop vent_indices ((position, vent_idx) # rest) cards =
     (let num_cards = int (length cards);
          next_vent_idx = vent_indices ! ((position + 1) mod length vent_indices);
          prev_vent_idx = vent_indices ! nat ((int position - 1) mod int (length vent_indices))
      in case walk_to_non_vent cards ((int next_vent_idx + 1) mod num_cards) 1 of
           None \<Rightarrow> None
         | Some (Inl e) \<Rightarrow> Some (Inl e)
         | Some (Inr clk_neighbor) \<Rightarrow>
             (case walk_to_non_vent cards ((int prev_vent_idx - 1) mod num_cards) (- 1) of
                None \<Rightarrow> None
              | Some (Inl e) \<Rightarrow> Some (Inl e)
              | Some (Inr counter_neighbor) \<Rightarrow>
                  link_loop vent_indices rest
                    (cards[vent_idx := set_neighbors (cards ! vent_idx) clk_neighbor counter_neighbor])))"

definition vent_indices_of :: "Card list \<Rightarrow> nat list" where
  "vent_indices_of cards =
     map fst (filter (\<lambda>(idx, crd). is_VentCard crd) (enumerate 0 cards))"

definition link_vents :: "Card list \<Rightarrow> (error + Card list) option" where
  "link_vents cards =
     (let vent_indices = vent_indices_of cards
      in if length vent_indices \<le> 1 then Some (Inr cards)
         else link_loop vent_indices (enumerate 0 vent_indices) cards)"

text \<open>
  \<open>configure_neighbors\<close>. The first loop calls \<open>set_neighbors\<close> once on every card,
  with the cards at \<open>(index + 1) % num_cards\<close> and \<open>(index - 1) % num_cards\<close>.
\<close>

definition base_wiring :: "Card list \<Rightarrow> Card list" where
  "base_wiring cards =
     map (\<lambda>(index, crd).
            set_neighbors crd
              (nat ((int index + 1) mod int (length cards)))
              (nat ((int index - 1) mod int (length cards))))
         (enumerate 0 cards)"

definition configure_neighbors :: "Card list \<Rightarrow> (error + Card list) option" where
  "configure_neighbors cards =
     (if cards = [] then Some (Inr cards)
      else link_vents (base_wiring cards))"

text \<open>
  The rerouting rule in the words of the specification: walking from \<open>start\<close> in
  steps of \<open>step\<close> around a ring of \<open>n\<close> cards visits the positions
  \<open>(start + k * step) mod n\<close> for \<open>k = 0, 1, \<dots>\<close>; after \<open>n\<close> positions
  the walk repeats. \<open>first_non_vent\<close> is the first of them that is not a vent, if any.
  It is used to state what \<open>_walk_to_non_vent\<close> finds, not to define it.
\<close>

definition first_non_vent :: "Card list \<Rightarrow> int \<Rightarrow> int \<Rightarrow> nat option" where
  "first_non_vent cards start step =
     find (\<lambda>j. \<not> is_VentCard (cards ! j))
       (map (\<lambda>k. nat ((start + int k * step) mod int (length cards))) [0..<length cards])"

section \<open>Traversal and matching engine\<close>

text \<open>
  The objects a run works on: the cards (with their neighbour links) and the
  \<open>Configuration\<close> objects, each addressed by position. A traversal receives the
  address of the travelling configuration, so that the in-place mutation done by an
  evolution card, and any aliasing with an amoeba card's target, is visible.
\<close>

record store =
  ring :: "Card list"
  cfgs :: "Configuration list"

text \<open>
  \<open>is_matched\<close> of the four card classes. Only \<open>EvolutionCard.is_matched\<close> writes:
  it calls \<open>evolve\<close> on the configuration object it was handed.
\<close>

definition is_matched :: "store \<Rightarrow> Card \<Rightarrow> nat \<Rightarrow> (error + bool) \<times> store" where
  "is_matched s self configuration =
     (case kind self of
        LabCard lab_color \<Rightarrow> (Inr False, s)
      | AmoebaCard target \<Rightarrow> (Inr (cfgs s ! target = cfgs s ! configuration), s)
      | VentCard \<Rightarrow> (Inr False, s)
      | EvolutionCard evolve_color evolve_pattern evolve_eye \<Rightarrow>
          (case evolve (cfgs s ! configuration) evolve_color evolve_pattern evolve_eye of
             Inl e \<Rightarrow> (Inl e, s)
           | Inr evolved \<Rightarrow> (Inr False, s\<lparr>cfgs := (cfgs s)[configuration := evolved]\<rparr>)))"

definition MAX_STEPS_PER_RUN :: nat where
  "MAX_STEPS_PER_RUN = 100"

text \<open>
  \<open>run_experiment\<close>: the \<open>for _ in range(MAX_STEPS_PER_RUN)\<close> loop, by recursion on
  the number of iterations left. The result \<open>None\<close> is the source's \<open>return None\<close>
  after the loop.
\<close>

fun run_loop :: "nat \<Rightarrow> store \<Rightarrow> nat \<Rightarrow> nat \<Rightarrow> Direction \<Rightarrow> (error + nat option) \<times> store" where
  "run_loop 0 s configuration current_card direction = (Inr None, s)"
| "run_loop (Suc steps_left) s configuration current_card direction =
     (case is_matched s (ring s ! current_card) configuration of
        (Inl e, s') \<Rightarrow> (Inl e, s')
      | (Inr matched, s') \<Rightarrow>
          if matched then (Inr (Some current_card), s')
          else (case get_next (ring s' ! current_card) direction of
                  Inl e \<Rightarrow> (Inl e, s')
                | Inr next_card \<Rightarrow> run_loop steps_left s' configuration next_card direction))"

definition run_experiment :: "store \<Rightarrow> nat \<Rightarrow> nat \<Rightarrow> Direction \<Rightarrow> (error + nat option) \<times> store" where
  "run_experiment s configuration start_lab direction =
     run_loop MAX_STEPS_PER_RUN s configuration start_lab direction"

text \<open>
  The calls of \<open>is_matched\<close> a loop of at most \<open>steps\<close> iterations makes, in order:
  the card checked and the answer. It follows \<open>run_loop\<close> line by line and is used
  only to state how many cards a traversal checks and which.
\<close>

fun checks :: "nat \<Rightarrow> store \<Rightarrow> nat \<Rightarrow> nat \<Rightarrow> Direction \<Rightarrow> (nat \<times> bool) list" where
  "checks 0 s configuration current_card direction = []"
| "checks (Suc steps_left) s configuration current_card direction =
     (case is_matched s (ring s ! current_card) configuration of
        (Inl e, s') \<Rightarrow> []
      | (Inr matched, s') \<Rightarrow>
          (current_card, matched) #
          (if matched then []
           else (case get_next (ring s' ! current_card) direction of
                   Inl e \<Rightarrow> []
                 | Inr next_card \<Rightarrow> checks steps_left s' configuration next_card direction)))"

text \<open>
  A fully wired ring: every card has both neighbours set, and they are cards of the
  ring.
\<close>

definition fully_wired :: "store \<Rightarrow> bool" where
  "fully_wired s =
     list_all (\<lambda>crd.
         (case clk_wise_neighbor crd of None \<Rightarrow> False | Some a \<Rightarrow> a < length (ring s))
       \<and> (case counter_clk_wise_neighbor crd of None \<Rightarrow> False | Some b \<Rightarrow> b < length (ring s)))
       (ring s)"

section \<open>Monte Carlo driver\<close>

text \<open>
  The random source is Python's \<open>random.Random\<close>, which is not part of the
  repository. It is a parameter of the model: a state of any type \<open>'r\<close> and a function
  \<open>randbelow n r\<close> that returns a drawn number and the next state.
  \<open>rng.choice(seq)\<close> is the library's \<open>seq[randbelow(len(seq))]\<close>, and raises
  IndexError on an empty sequence without drawing.
\<close>

definition choice :: "(nat \<Rightarrow> 'r \<Rightarrow> nat \<times> 'r) \<Rightarrow> 'a list \<Rightarrow> 'r \<Rightarrow> (error + 'a) \<times> 'r" where
  "choice randbelow seq r =
     (if seq = [] then (Inl IndexError, r)
      else (case randbelow (length seq) r of
              (i, r') \<Rightarrow> if i < length seq then (Inr (seq ! i), r') else (Inl IndexError, r')))"

text \<open>
  One iteration of the loop of \<open>simulate\<close> up to and including the call of
  \<open>run_experiment\<close>: the five draws in the order the source makes them, the fresh
  \<open>Configuration\<close> object (allocated at the next free address), and the traversal.
\<close>

definition trial ::
  "(nat \<Rightarrow> 'r \<Rightarrow> nat \<times> 'r) \<Rightarrow> nat list \<Rightarrow> store \<Rightarrow> 'r \<Rightarrow> (error + nat option) \<times> store \<times> 'r" where
  "trial randbelow lab_cards s r =
     (case choice randbelow AmoebaColor_members r of
        (Inl e, r1) \<Rightarrow> (Inl e, s, r1)
      | (Inr c, r1) \<Rightarrow>
     (case choice randbelow Pattern_members r1 of
        (Inl e, r2) \<Rightarrow> (Inl e, s, r2)
      | (Inr p, r2) \<Rightarrow>
     (case choice randbelow Eye_members r2 of
        (Inl e, r3) \<Rightarrow> (Inl e, s, r3)
      | (Inr e, r3) \<Rightarrow>
     (let random_config = length (cfgs s);
          s1 = s\<lparr>cfgs := cfgs s @ [\<lparr>color = c, pattern = p, eye = e\<rparr>]\<rparr>
      in case choice randbelow lab_cards r3 of
        (Inl e, r4) \<Rightarrow> (Inl e, s1, r4)
      | (Inr start_lab, r4) \<Rightarrow>
     (case choice randbelow Direction_members r4 of
        (Inl e, r5) \<Rightarrow> (Inl e, s1, r5)
      | (Inr direction, r5) \<Rightarrow>
          (case run_experiment s1 random_config start_lab direction of
             (matched_card, s2) \<Rightarrow> (matched_card, s2, r5)))))))"

text \<open>
  The loop of \<open>simulate\<close> over \<open>range(experiments)\<close>. The dictionary \<open>points\<close> is
  keyed by card identity; with cards addressed by position it is the list of counts by
  position, and a matched card that is not a key raises KeyError.
\<close>

fun sim_loop ::
  "(nat \<Rightarrow> 'r \<Rightarrow> nat \<times> 'r) \<Rightarrow> nat list \<Rightarrow> nat \<Rightarrow> int list \<Rightarrow> store \<Rightarrow> 'r
     \<Rightarrow> (error + int list) \<times> store \<times> 'r" where
  "sim_loop randbelow lab_cards 0 points s r = (Inr points, s, r)"
| "sim_loop randbelow lab_cards (Suc trials_left) points s r =
     (case trial randbelow lab_cards s r of
        (Inl e, s', r') \<Rightarrow> (Inl e, s', r')
      | (Inr None, s', r') \<Rightarrow> sim_loop randbelow lab_cards trials_left points s' r'
      | (Inr (Some matched_card), s', r') \<Rightarrow>
          if matched_card < length points
          then sim_loop randbelow lab_cards trials_left
                 (points[matched_card := points ! matched_card + 1]) s' r'
          else (Inl KeyError, s', r'))"

text \<open>
  \<open>simulate(cards, rng, experiments)\<close>, with \<open>cards\<close> the ring of the store.
  \<open>lab_cards_of\<close> is the comprehension that collects the lab cards (their addresses,
  in sequence order).
  \<open>range(experiments)\<close> is empty for \<open>experiments \<le> 0\<close>, hence \<open>nat experiments\<close>
  iterations.
\<close>

definition lab_cards_of :: "Card list \<Rightarrow> nat list" where
  "lab_cards_of cards =
     map fst (filter (\<lambda>(idx, crd). is_LabCard crd) (enumerate 0 cards))"

definition simulate ::
  "(nat \<Rightarrow> 'r \<Rightarrow> nat \<times> 'r) \<Rightarrow> store \<Rightarrow> 'r \<Rightarrow> int \<Rightarrow> (error + int list) \<times> store \<times> 'r" where
  "simulate randbelow s r experiments =
     (let lab_cards = lab_cards_of (ring s)
      in if lab_cards = [] then (Inl NoLabCards, s, r)
         else sim_loop randbelow lab_cards (nat experiments)
                (replicate (length (ring s)) 0) s r)"

text \<open>
  The outcomes of the trials of a run, in order: what \<open>run_experiment\<close> returned in each
  (\<open>None\<close> for a trial that used up its steps without a match). It follows \<open>sim_loop\<close>
  and is used only to state which trials were dropped.
\<close>

fun trial_outcomes ::
  "(nat \<Rightarrow> 'r \<Rightarrow> nat \<times> 'r) \<Rightarrow> nat list \<Rightarrow> nat \<Rightarrow> store \<Rightarrow> 'r \<Rightarrow> nat option list" where
  "trial_outcomes randbelow lab_cards 0 s r = []"
| "trial_outcomes randbelow lab_cards (Suc trials_left) s r =
     (case trial randbelow lab_cards s r of
        (Inl e, s', r') \<Rightarrow> []
      | (Inr matched_card, s', r') \<Rightarrow>
          matched_card # trial_outcomes randbelow lab_cards trials_left s' r')"

text \<open>Repeated calls of \<open>evolve\<close> on one configuration object.\<close>

fun evolve_times :: "nat \<Rightarrow> Configuration \<Rightarrow> bool \<Rightarrow> bool \<Rightarrow> bool \<Rightarrow> error + Configuration" where
  "evolve_times 0 self evolve_color evolve_pattern evolve_eye = Inr self"
| "evolve_times (Suc k) self evolve_color evolve_pattern evolve_eye =
     (case evolve self evolve_color evolve_pattern evolve_eye of
        Inl e \<Rightarrow> Inl e
      | Inr evolved \<Rightarrow> evolve_times k evolved evolve_color evolve_pattern evolve_eye)"

text \<open>
  Concrete inputs for the closed examples: a card as the parser creates it (no
  neighbours yet), and a small deterministic random source (a counter; the number drawn
  below \<open>n\<close> is the counter modulo \<open>n\<close>).
\<close>

definition new_card :: "int \<Rightarrow> CardKind \<Rightarrow> Card" where
  "new_card line k =
     \<lparr>line_number = line, kind = k, clk_wise_neighbor = None,
      counter_clk_wise_neighbor = None\<rparr>"

definition counter_randbelow :: "nat \<Rightarrow> nat \<Rightarrow> nat \<times> nat" where
  "counter_randbelow n r = (r mod n, Suc r)"

definition ring_two_vents :: "Card list" where
  "ring_two_vents =
     [new_card 1 (LabCard LAB_RED), new_card 2 VentCard, new_card 3 VentCard,
      new_card 4 (AmoebaCard 0)]"

definition ring_only_vents :: "Card list" where
  "ring_only_vents = [new_card 1 VentCard, new_card 2 VentCard]"

definition ring_one_vent :: "Card list" where
  "ring_one_vent =
     [new_card 1 (LabCard LAB_GREEN), new_card 2 VentCard, new_card 3 (AmoebaCard 0)]"

text \<open>
  The member that follows each member in declaration order, written out by cases; the
  lemmas \<open>rotate_next_color\<close>, \<open>rotate_next_pattern\<close> and \<open>rotate_next_eye\<close> show that
  \<open>_rotate_enum_value\<close> computes exactly these and never raises.
\<close>

definition next_color :: "AmoebaColor \<Rightarrow> AmoebaColor" where
  "next_color c = (case c of RED \<Rightarrow> BLUE | BLUE \<Rightarrow> RED)"

definition next_pattern :: "Pattern \<Rightarrow> Pattern" where
  "next_pattern p = (case p of STRIPED \<Rightarrow> DOTTY | DOTTY \<Rightarrow> STRIPED)"

definition next_eye :: "Eye \<Rightarrow> Eye" where
  "next_eye e = (case e of SINGLE \<Rightarrow> DOUBLE | DOUBLE \<Rightarrow> SINGLE)"

text \<open>
  A ring of a lab card and an amoeba card, wired as \<open>configure_neighbors\<close> wires it
  (lemma \<open>small_ring_configured\<close>), with the amoeba's target configuration at address
  0; and the same store with a second configuration object, at address 1, to travel.
\<close>

definition small_ring :: store where
  "small_ring =
     \<lparr>ring = [set_neighbors (new_card 1 (LabCard LAB_RED)) 1 1,
              set_neighbors (new_card 2 (AmoebaCard 0)) 0 0],
      cfgs = [\<lparr>color = BLUE, pattern = DOTTY, eye = SINGLE\<rparr>]\<rparr>"

definition small_ring_traveller :: store where
  "small_ring_traveller =
     small_ring\<lparr>cfgs := cfgs small_ring @ [\<lparr>color = RED, pattern = DOTTY, eye = SINGLE\<rparr>]\<rparr>"

text \<open>
  A ring with an evolution card between the lab card and the amoeba card, wired as
  \<open>configure_neighbors\<close> wires it (lemma \<open>evolving_ring_configured\<close>).
\<close>

definition evolving_ring :: store where
  "evolving_ring =
     \<lparr>ring = [set_neighbors (new_card 1 (LabCard LAB_RED)) 1 2,
              set_neighbors (new_card 2 (EvolutionCard True False False)) 2 0,
              set_neighbors (new_card 3 (AmoebaCard 0)) 0 1],
      cfgs = [\<lparr>color = BLUE, pattern = DOTTY, eye = SINGLE\<rparr>]\<rparr>"

section \<open>Properties of the topology builder\<close>

lemma walk_loop_reaches:
  assumes "0 < length cards"
  shows "0 \<le> i \<Longrightarrow> i < int (length cards) \<Longrightarrow>
     \<forall>k<d. is_VentCard (cards ! nat ((i + int k * step) mod int (length cards))) \<Longrightarrow>
     \<not> is_VentCard (cards ! nat ((i + int d * step) mod int (length cards))) \<Longrightarrow>
     walk_loop cards i step = Some (nat ((i + int d * step) mod int (length cards)))"
proof (induction d arbitrary: i)
  case 0
  then show ?case by (subst walk_loop.simps) simp
next
  case (Suc d)
  let ?n = "int (length cards)"
  let ?i' = "(i + step) mod ?n"
  have n: "0 < ?n" using assms by simp
  have v: "is_VentCard (cards ! nat i)" using Suc.prems(3)[rule_format, of 0] Suc.prems(1,2) by simp
  have sh: "\<And>k. (?i' + int k * step) mod ?n = (i + int (Suc k) * step) mod ?n"
  proof -
    fix k
    have "(?i' + int k * step) mod ?n = ((i + step) + int k * step) mod ?n"
      by (rule mod_add_left_eq)
    also have "(i + step) + int k * step = i + int (Suc k) * step"
      by (simp add: algebra_simps)
    finally show "(?i' + int k * step) mod ?n = (i + int (Suc k) * step) mod ?n" .
  qed
  have "walk_loop cards ?i' step = Some (nat ((?i' + int d * step) mod ?n))"
  proof (rule Suc.IH)
    show "0 \<le> ?i'" using n by simp
    show "?i' < ?n" using n by simp
    show "\<forall>k<d. is_VentCard (cards ! nat ((?i' + int k * step) mod ?n))"
      using Suc.prems(3) unfolding sh by auto
    show "\<not> is_VentCard (cards ! nat ((?i' + int d * step) mod ?n))"
      using Suc.prems(4) unfolding sh by simp
  qed
  then show ?case using v unfolding sh by (subst walk_loop.simps) simp
qed

lemma walk_loop_Some_non_vent:
  assumes "walk_loop cards i step = Some y"
  shows "0 \<le> i \<longrightarrow> i < int (length cards) \<longrightarrow>
     y < length cards \<and> \<not> is_VentCard (cards ! y)"
proof (rule walk_loop.raw_induct
    [where P = "\<lambda>cs j st r. 0 \<le> j \<longrightarrow> j < int (length cs) \<longrightarrow>
                   r < length cs \<and> \<not> is_VentCard (cs ! r)", OF _ assms])
  fix f :: "Card list \<Rightarrow> int \<Rightarrow> int \<Rightarrow> nat option" and cs j st r
  assume IH: "\<And>cs j st r. f cs j st = Some r \<Longrightarrow>
      0 \<le> j \<longrightarrow> j < int (length cs) \<longrightarrow> r < length cs \<and> \<not> is_VentCard (cs ! r)"
    and eq: "(if is_VentCard (cs ! nat j) then f cs ((j + st) mod int (length cs)) st
              else Some (nat j)) = Some r"
  show "0 \<le> j \<longrightarrow> j < int (length cs) \<longrightarrow> r < length cs \<and> \<not> is_VentCard (cs ! r)"
  proof (intro impI)
    assume r: "0 \<le> j" "j < int (length cs)"
    show "r < length cs \<and> \<not> is_VentCard (cs ! r)"
    proof (cases "is_VentCard (cs ! nat j)")
      case True
      have n: "0 < int (length cs)" using r by linarith
      from True eq have "f cs ((j + st) mod int (length cs)) st = Some r" by simp
      from IH[OF this] n show ?thesis by simp
    next
      case False
      with eq have "r = nat j" by simp
      with False r show ?thesis by simp
    qed
  qed
qed


lemma is_VentCard_set_neighbors [simp]:
  "is_VentCard (set_neighbors c a b) = is_VentCard c"
  by (simp add: is_VentCard_def set_neighbors_def)

lemma enumerate_as_map: "enumerate 0 xs = map (\<lambda>i. (i, xs ! i)) [0..<length xs]"
  by (rule nth_equalityI) (simp_all add: nth_enumerate_eq)

lemma length_base_wiring [simp]: "length (base_wiring cards) = length cards"
  by (simp add: base_wiring_def)

lemma nth_base_wiring:
  "i < length cards \<Longrightarrow>
   base_wiring cards ! i =
     set_neighbors (cards ! i) (nat ((int i + 1) mod int (length cards)))
       (nat ((int i - 1) mod int (length cards)))"
  by (simp add: base_wiring_def nth_enumerate_eq)

lemma vent_indices_of_eq:
  "vent_indices_of cards = filter (\<lambda>i. is_VentCard (cards ! i)) [0..<length cards]"
  by (simp add: vent_indices_of_def enumerate_as_map filter_map comp_def)

lemma vent_indices_of_base_wiring [simp]:
  "vent_indices_of (base_wiring cards) = vent_indices_of cards"
  unfolding vent_indices_of_eq
  by (rule filter_cong) (simp_all add: nth_base_wiring)

lemma nat_mod_less: "0 < n \<Longrightarrow> nat (x mod int n) < n"
  by (simp add: nat_less_iff)

lemma first_non_vent_cong:
  assumes "length cs = length cards"
    and "\<And>j. j < length cards \<Longrightarrow> is_VentCard (cs ! j) = is_VentCard (cards ! j)"
  shows "first_non_vent cs start step = first_non_vent cards start step"
  unfolding first_non_vent_def assms(1)
proof (intro find_cong refl)
  fix j
  assume "j \<in> set (map (\<lambda>k. nat ((start + int k * step) mod int (length cards))) [0..<length cards])"
  then obtain k where k: "k < length cards" "j = nat ((start + int k * step) mod int (length cards))"
    by auto
  then have "0 < length cards" by auto
  with k have "j < length cards" by (simp only: nat_mod_less)
  then show "(\<not> is_VentCard (cs ! j)) = (\<not> is_VentCard (cards ! j))"
    by (simp add: assms(2))
qed

lemma first_non_vent_mod:
  "first_non_vent cards (start mod int (length cards)) step = first_non_vent cards start step"
  by (simp add: first_non_vent_def mod_add_left_eq)


lemma first_non_vent_exists:
  assumes j0: "j0 < length cards" "\<not> is_VentCard (cards ! j0)"
    and step: "step = 1 \<or> step = - 1"
  shows "\<exists>j. first_non_vent cards start step = Some j"
proof -
  let ?n = "int (length cards)"
  define k where "k = nat (((int j0 - start) * step) mod ?n)"
  have n: "0 < length cards" using j0 by auto
  have k: "k < length cards" unfolding k_def using n by (simp only: nat_mod_less)
  have "int k = ((int j0 - start) * step) mod ?n" unfolding k_def using n by simp
  then have "(start + int k * step) mod ?n = (start + (((int j0 - start) * step) mod ?n) * step) mod ?n"
    by simp
  also have "\<dots> = (start + ((int j0 - start) * step) * step) mod ?n"
    by (metis mod_add_right_eq mod_mult_left_eq)
  also have "((int j0 - start) * step) * step = int j0 - start"
    using step by auto
  also have "(start + (int j0 - start)) mod ?n = int j0" using j0 by simp
  finally have "nat ((start + int k * step) mod ?n) = j0" by simp
  with k have "j0 \<in> set (map (\<lambda>k. nat ((start + int k * step) mod ?n)) [0..<length cards])"
    by (metis (mono_tags, lifting) atLeast0LessThan imageI lessThan_iff list.set_map set_upt)
  with j0(2) have "find (\<lambda>j. \<not> is_VentCard (cards ! j))
       (map (\<lambda>k. nat ((start + int k * step) mod ?n)) [0..<length cards]) \<noteq> None"
    unfolding find_None_iff by blast
  then show ?thesis unfolding first_non_vent_def by auto
qed

lemma walk_to_non_vent_first:
  assumes "first_non_vent cards start step = Some j"
  shows "walk_to_non_vent cards start step = Some (Inr j) \<and> j < length cards
         \<and> \<not> is_VentCard (cards ! j)"
proof -
  let ?n = "int (length cards)"
  let ?pos = "\<lambda>k. nat ((start + int k * step) mod ?n)"
  from assms obtain d where d: "d < length cards" "\<not> is_VentCard (cards ! ?pos d)"
      "j = ?pos d" "\<forall>k<d. is_VentCard (cards ! ?pos k)"
    unfolding first_non_vent_def find_Some_iff by force
  have n: "0 < length cards" using d(1) by auto
  have sh: "((start mod ?n) + int k * step) mod ?n = (start + int k * step) mod ?n" for k
    by (rule mod_add_left_eq)
  have "walk_loop cards (start mod ?n) step = Some (nat (((start mod ?n) + int d * step) mod ?n))"
  proof (rule walk_loop_reaches[OF n])
    show "0 \<le> start mod ?n" using n by simp
    show "start mod ?n < ?n" using n by simp
    show "\<forall>k<d. is_VentCard (cards ! nat ((start mod ?n + int k * step) mod ?n))"
      unfolding sh using d(4) by simp
    show "\<not> is_VentCard (cards ! nat ((start mod ?n + int d * step) mod ?n))"
      unfolding sh using d(2) by simp
  qed
  then have "walk_to_non_vent cards start step = Some (Inr j)"
    unfolding sh using n d(3) by (simp add: walk_to_non_vent_def)
  moreover have "j < length cards" unfolding d(3) using n by (simp only: nat_mod_less)
  ultimately show ?thesis using d(2,3) by simp
qed

lemma link_loop_result:
  assumes "length cs = length cards"
    and "\<And>j. j < length cards \<Longrightarrow> is_VentCard (cs ! j) = is_VentCard (cards ! j)"
    and "j0 < length cards" "\<not> is_VentCard (cards ! j0)"
    and "distinct (map snd ps)"
    and "\<And>p v. (p, v) \<in> set ps \<Longrightarrow> v < length cards"
  shows "\<exists>cs'. link_loop V ps cs = Some (Inr cs') \<and> length cs' = length cards
      \<and> (\<forall>j<length cards. is_VentCard (cs' ! j) = is_VentCard (cards ! j))
      \<and> (\<forall>i<length cards. i \<notin> snd ` set ps \<longrightarrow> cs' ! i = cs ! i)
      \<and> (\<forall>(p, v)\<in>set ps. \<exists>a b.
            first_non_vent cards (int (V ! ((p + 1) mod length V)) + 1) 1 = Some a
          \<and> first_non_vent cards (int (V ! nat ((int p - 1) mod int (length V))) - 1) (- 1) = Some b
          \<and> cs' ! v = set_neighbors (cs ! v) a b)"
  using assms(1,2,5,6)
proof (induction ps arbitrary: cs)
  case Nil
  then show ?case by simp
next
  case (Cons pv ps)
  obtain p v where pv: "pv = (p, v)" by (cases pv)
  let ?n = "int (length cards)"
  let ?s1 = "int (V ! ((p + 1) mod length V)) + 1"
  let ?s2 = "int (V ! nat ((int p - 1) mod int (length V))) - 1"
  from first_non_vent_exists[OF assms(3,4), of 1 ?s1]
  obtain a where a: "first_non_vent cards ?s1 1 = Some a" by auto
  from first_non_vent_exists[OF assms(3,4), of "- 1" ?s2]
  obtain b where b: "first_non_vent cards ?s2 (- 1) = Some b" by auto
  have cong: "first_non_vent cs s st = first_non_vent cards s st" for s st
    by (rule first_non_vent_cong) (use Cons.prems in auto)
  have wa: "walk_to_non_vent cs (?s1 mod int (length cs)) 1 = Some (Inr a)"
    using walk_to_non_vent_first[of cs "?s1 mod int (length cs)" 1 a] a
    by (simp only: first_non_vent_mod cong)
  have wb: "walk_to_non_vent cs (?s2 mod int (length cs)) (- 1) = Some (Inr b)"
    using walk_to_non_vent_first[of cs "?s2 mod int (length cs)" "- 1" b] b
    by (simp only: first_non_vent_mod cong)
  let ?cs1 = "cs[v := set_neighbors (cs ! v) a b]"
  have step: "link_loop V (pv # ps) cs = link_loop V ps ?cs1"
    unfolding pv using wa wb by (simp add: Let_def)
  have v: "v < length cards" using Cons.prems(4)[of p v] pv by simp
  have vnotin: "v \<notin> snd ` set ps" using Cons.prems(3) pv by simp
  have "\<exists>cs'. link_loop V ps ?cs1 = Some (Inr cs') \<and> length cs' = length cards
      \<and> (\<forall>j<length cards. is_VentCard (cs' ! j) = is_VentCard (cards ! j))
      \<and> (\<forall>i<length cards. i \<notin> snd ` set ps \<longrightarrow> cs' ! i = ?cs1 ! i)
      \<and> (\<forall>(p, v)\<in>set ps. \<exists>a b.
            first_non_vent cards (int (V ! ((p + 1) mod length V)) + 1) 1 = Some a
          \<and> first_non_vent cards (int (V ! nat ((int p - 1) mod int (length V))) - 1) (- 1) = Some b
          \<and> cs' ! v = set_neighbors (?cs1 ! v) a b)"
  proof (rule Cons.IH)
    show "length ?cs1 = length cards" using Cons.prems(1) by simp
    show "is_VentCard (?cs1 ! j) = is_VentCard (cards ! j)" if "j < length cards" for j
      using that v Cons.prems(1,2) by (cases "j = v") simp_all
    show "distinct (map snd ps)" using Cons.prems(3) by simp
    show "v' < length cards" if "(p', v') \<in> set ps" for p' v'
      using that Cons.prems(4)[of p' v'] by simp
  qed
  then obtain cs' where cs': "link_loop V ps ?cs1 = Some (Inr cs')" "length cs' = length cards"
      "\<forall>j<length cards. is_VentCard (cs' ! j) = is_VentCard (cards ! j)"
      "\<forall>i<length cards. i \<notin> snd ` set ps \<longrightarrow> cs' ! i = ?cs1 ! i"
      "\<forall>(p, v)\<in>set ps. \<exists>a b.
            first_non_vent cards (int (V ! ((p + 1) mod length V)) + 1) 1 = Some a
          \<and> first_non_vent cards (int (V ! nat ((int p - 1) mod int (length V))) - 1) (- 1) = Some b
          \<and> cs' ! v = set_neighbors (?cs1 ! v) a b"
    by blast
  have head: "cs' ! v = set_neighbors (cs ! v) a b"
    using cs'(4) v vnotin Cons.prems(1) by simp
  have rest: "\<exists>a b.
            first_non_vent cards (int (V ! ((p' + 1) mod length V)) + 1) 1 = Some a
          \<and> first_non_vent cards (int (V ! nat ((int p' - 1) mod int (length V))) - 1) (- 1) = Some b
          \<and> cs' ! v' = set_neighbors (cs ! v') a b" if "(p', v') \<in> set ps" for p' v'
  proof -
    have "v' \<noteq> v" using that vnotin by force
    then have "?cs1 ! v' = cs ! v'" by simp
    with cs'(5) that show ?thesis by fastforce
  qed
  have other: "\<forall>i<length cards. i \<notin> snd ` set (pv # ps) \<longrightarrow> cs' ! i = cs ! i"
    using cs'(4) pv by (auto simp: nth_list_update)
  show ?case
    unfolding step using cs'(1,2,3) other head a b rest pv by auto
qed


lemma configure_neighbors_few_vents:
  assumes "length (vent_indices_of cards) \<le> 1"
  shows "configure_neighbors cards = Some (Inr (base_wiring cards))"
proof (cases "cards = []")
  case True
  then show ?thesis by (simp add: configure_neighbors_def base_wiring_def)
next
  case False
  with assms show ?thesis by (simp add: configure_neighbors_def link_vents_def)
qed

lemma walk_to_non_vent_all_vents:
  assumes "cards \<noteq> []" "\<forall>i<length cards. is_VentCard (cards ! i)"
  shows "walk_to_non_vent cards start step = None"
proof -
  let ?n = "int (length cards)"
  have n: "0 < ?n" using assms(1) by simp
  have "walk_loop cards (start mod ?n) step = None"
  proof (cases "walk_loop cards (start mod ?n) step")
    case (Some y)
    from walk_loop_Some_non_vent[OF Some] n have "y < length cards \<and> \<not> is_VentCard (cards ! y)"
      by simp
    with assms(2) show ?thesis by blast
  qed simp
  then show ?thesis using assms(1) by (simp add: walk_to_non_vent_def)
qed

lemma configure_neighbors_all_vents:
  assumes "2 \<le> length cards" "\<forall>i<length cards. is_VentCard (cards ! i)"
  shows "configure_neighbors cards = None"
proof -
  let ?cs = "base_wiring cards"
  let ?V = "vent_indices_of cards"
  have V: "?V = [0..<length cards]"
    using assms(2) by (simp add: vent_indices_of_eq filter_id_conv)
  have ne: "cards \<noteq> []" using assms(1) by auto
  then have ne2: "?cs \<noteq> []" by (metis length_base_wiring length_0_conv)
  have allv: "\<forall>i<length ?cs. is_VentCard (?cs ! i)"
    using assms(2) by (simp add: nth_base_wiring)
  have u: "[0..<length cards] = 0 # [Suc 0..<length cards]"
    by (rule upt_conv_Cons) (use assms(1) in linarith)
  have "enumerate 0 [0..<length cards] = (0, 0) # enumerate (Suc 0) [Suc 0..<length cards]"
    by (subst u) simp
  then have "link_loop ?V (enumerate 0 ?V) ?cs = None"
    unfolding V by (simp add: Let_def walk_to_non_vent_all_vents[OF ne2 allv])
  then show ?thesis
    using assms(1) ne V by (simp add: configure_neighbors_def link_vents_def Let_def)
qed

lemma vent_indices_props:
  "distinct (vent_indices_of cards)"
  "p < length (vent_indices_of cards) \<Longrightarrow> vent_indices_of cards ! p < length cards"
  "p < length (vent_indices_of cards) \<Longrightarrow> is_VentCard (cards ! (vent_indices_of cards ! p))"
  "i < length cards \<Longrightarrow> \<not> is_VentCard (cards ! i) \<Longrightarrow> i \<notin> set (vent_indices_of cards)"
proof -
  show "distinct (vent_indices_of cards)" by (simp add: vent_indices_of_eq)
  show "i < length cards \<Longrightarrow> \<not> is_VentCard (cards ! i) \<Longrightarrow> i \<notin> set (vent_indices_of cards)"
    by (simp add: vent_indices_of_eq)
  assume "p < length (vent_indices_of cards)"
  then have "vent_indices_of cards ! p \<in> set (vent_indices_of cards)" by simp
  then show "vent_indices_of cards ! p < length cards"
    "is_VentCard (cards ! (vent_indices_of cards ! p))"
    by (simp_all add: vent_indices_of_eq)
qed

lemma configure_neighbors_many_vents:
  assumes V: "V = vent_indices_of cards" "2 \<le> length V"
    and j0: "j0 < length cards" "\<not> is_VentCard (cards ! j0)"
  shows "\<exists>cs'. configure_neighbors cards = Some (Inr cs') \<and> length cs' = length cards
      \<and> (\<forall>i<length cards. \<not> is_VentCard (cards ! i) \<longrightarrow> cs' ! i = base_wiring cards ! i)
      \<and> (\<forall>p<length V. \<exists>a b.
            first_non_vent cards (int (V ! ((p + 1) mod length V)) + 1) 1 = Some a
          \<and> first_non_vent cards (int (V ! nat ((int p - 1) mod int (length V))) - 1) (- 1) = Some b
          \<and> cs' ! (V ! p) = set_neighbors (base_wiring cards ! (V ! p)) a b)"
proof -
  let ?cs = "base_wiring cards"
  let ?ps = "enumerate 0 V"
  have ne: "cards \<noteq> []" using j0 by auto
  have cn: "configure_neighbors cards = link_loop V ?ps ?cs"
    using V ne by (simp add: configure_neighbors_def link_vents_def Let_def)
  have ps: "set ?ps = {(p, V ! p) | p. p < length V}"
    by (auto simp: enumerate_as_map)
  have "\<exists>cs'. link_loop V ?ps ?cs = Some (Inr cs') \<and> length cs' = length cards
      \<and> (\<forall>j<length cards. is_VentCard (cs' ! j) = is_VentCard (cards ! j))
      \<and> (\<forall>i<length cards. i \<notin> snd ` set ?ps \<longrightarrow> cs' ! i = ?cs ! i)
      \<and> (\<forall>(p, v)\<in>set ?ps. \<exists>a b.
            first_non_vent cards (int (V ! ((p + 1) mod length V)) + 1) 1 = Some a
          \<and> first_non_vent cards (int (V ! nat ((int p - 1) mod int (length V))) - 1) (- 1) = Some b
          \<and> cs' ! v = set_neighbors (?cs ! v) a b)"
  proof (rule link_loop_result[OF _ _ j0])
    show "length ?cs = length cards" by simp
    show "is_VentCard (?cs ! j) = is_VentCard (cards ! j)" if "j < length cards" for j
      using that by (simp add: nth_base_wiring)
    show "distinct (map snd ?ps)" using V(1) by (simp add: vent_indices_props(1))
    show "v < length cards" if "(p, v) \<in> set ?ps" for p v
      using that V(1) vent_indices_props(2) unfolding ps by auto
  qed
  then obtain cs' where cs': "link_loop V ?ps ?cs = Some (Inr cs')" "length cs' = length cards"
      "\<forall>i<length cards. i \<notin> snd ` set ?ps \<longrightarrow> cs' ! i = ?cs ! i"
      "\<forall>(p, v)\<in>set ?ps. \<exists>a b.
            first_non_vent cards (int (V ! ((p + 1) mod length V)) + 1) 1 = Some a
          \<and> first_non_vent cards (int (V ! nat ((int p - 1) mod int (length V))) - 1) (- 1) = Some b
          \<and> cs' ! v = set_neighbors (?cs ! v) a b"
    by blast
  have "snd ` set ?ps = set V"
    by (metis list.set_map map_snd_enumerate)
  then have a: "\<forall>i<length cards. \<not> is_VentCard (cards ! i) \<longrightarrow> cs' ! i = ?cs ! i"
    using cs'(3) V(1) vent_indices_props(4) by simp
  have b: "\<forall>p<length V. \<exists>a b.
            first_non_vent cards (int (V ! ((p + 1) mod length V)) + 1) 1 = Some a
          \<and> first_non_vent cards (int (V ! nat ((int p - 1) mod int (length V))) - 1) (- 1) = Some b
          \<and> cs' ! (V ! p) = set_neighbors (?cs ! (V ! p)) a b"
    using cs'(4) unfolding ps by blast
  show ?thesis unfolding cn using cs'(1,2) a b by blast
qed

lemma kind_set_neighbors [simp]:
  "kind (set_neighbors c a b) = kind c"
  "line_number (set_neighbors c a b) = line_number c"
  "clk_wise_neighbor (set_neighbors c a b) = Some a"
  "counter_clk_wise_neighbor (set_neighbors c a b) = Some b"
  by (simp_all add: set_neighbors_def)

text \<open>
  C3. Let \<open>V\<close> be the ascending list of the vent positions. With two or more vents
  (and a card that is not a vent, without which the builder does not return),
  \<open>configure_neighbors\<close> returns, and the vent at position \<open>p\<close> of \<open>V\<close> has as
  clockwise neighbour the first non-vent card walking clockwise from
  \<open>V[(p+1) mod |V|] + 1\<close> and as counter-clockwise neighbour the first non-vent card
  walking counter-clockwise from \<open>V[(p-1) mod |V|] - 1\<close>. With at most one vent every
  card keeps the base neighbours \<open>(i+1) mod n\<close> and \<open>(i-1) mod n\<close>.
\<close>

theorem configure_neighbors_vent_rerouting:
  assumes V: "V = filter (\<lambda>i. is_VentCard (cards ! i)) [0..<length cards]"
    and ok: "length V \<le> 1 \<or> (\<exists>j<length cards. \<not> is_VentCard (cards ! j))"
  shows "\<exists>cards'. configure_neighbors cards = Some (Inr cards') \<and> length cards' = length cards
     \<and> (2 \<le> length V \<longrightarrow> (\<forall>p<length V.
            clk_wise_neighbor (cards' ! (V ! p))
              = first_non_vent cards (int (V ! ((p + 1) mod length V)) + 1) 1
          \<and> clk_wise_neighbor (cards' ! (V ! p)) \<noteq> None
          \<and> counter_clk_wise_neighbor (cards' ! (V ! p))
              = first_non_vent cards (int (V ! nat ((int p - 1) mod int (length V))) - 1) (- 1)
          \<and> counter_clk_wise_neighbor (cards' ! (V ! p)) \<noteq> None))
     \<and> (length V \<le> 1 \<longrightarrow> (\<forall>i<length cards.
            clk_wise_neighbor (cards' ! i) = Some (nat ((int i + 1) mod int (length cards)))
          \<and> counter_clk_wise_neighbor (cards' ! i)
              = Some (nat ((int i - 1) mod int (length cards)))))"
proof (cases "length V \<le> 1")
  case True
  have "vent_indices_of cards = V" by (simp add: V vent_indices_of_eq)
  with True have "configure_neighbors cards = Some (Inr (base_wiring cards))"
    by (simp add: configure_neighbors_few_vents)
  with True show ?thesis by (simp add: nth_base_wiring)
next
  case False
  then have two: "2 \<le> length V" by simp
  with ok obtain j0 where j0: "j0 < length cards" "\<not> is_VentCard (cards ! j0)" by auto
  have VV: "V = vent_indices_of cards" by (simp add: V vent_indices_of_eq)
  from configure_neighbors_many_vents[OF VV two j0]
  obtain cs' where cs': "configure_neighbors cards = Some (Inr cs')" "length cs' = length cards"
    "\<forall>p<length V. \<exists>a b.
            first_non_vent cards (int (V ! ((p + 1) mod length V)) + 1) 1 = Some a
          \<and> first_non_vent cards (int (V ! nat ((int p - 1) mod int (length V))) - 1) (- 1) = Some b
          \<and> cs' ! (V ! p) = set_neighbors (base_wiring cards ! (V ! p)) a b"
    by blast
  have "clk_wise_neighbor (cs' ! (V ! p))
              = first_non_vent cards (int (V ! ((p + 1) mod length V)) + 1) 1
          \<and> clk_wise_neighbor (cs' ! (V ! p)) \<noteq> None
          \<and> counter_clk_wise_neighbor (cs' ! (V ! p))
              = first_non_vent cards (int (V ! nat ((int p - 1) mod int (length V))) - 1) (- 1)
          \<and> counter_clk_wise_neighbor (cs' ! (V ! p)) \<noteq> None" if "p < length V" for p
    using cs'(3)[rule_format, OF that] by auto
  then have "\<forall>p<length V.
            clk_wise_neighbor (cs' ! (V ! p))
              = first_non_vent cards (int (V ! ((p + 1) mod length V)) + 1) 1
          \<and> clk_wise_neighbor (cs' ! (V ! p)) \<noteq> None
          \<and> counter_clk_wise_neighbor (cs' ! (V ! p))
              = first_non_vent cards (int (V ! nat ((int p - 1) mod int (length V))) - 1) (- 1)
          \<and> counter_clk_wise_neighbor (cs' ! (V ! p)) \<noteq> None"
    by blast
  with cs'(1,2) False show ?thesis by blast
qed

theorem configure_neighbors_vent_rerouting_witness:
  "\<exists>cards'. configure_neighbors ring_two_vents = Some (Inr cards')
     \<and> clk_wise_neighbor (cards' ! 1) = Some 3
     \<and> counter_clk_wise_neighbor (cards' ! 1) = Some 0
     \<and> clk_wise_neighbor (cards' ! 2) = Some 3
     \<and> counter_clk_wise_neighbor (cards' ! 2) = Some 0"
proof -
  have len: "length ring_two_vents = 4" by (simp add: ring_two_vents_def)
  have v: "\<not> is_VentCard (ring_two_vents ! 0)" "is_VentCard (ring_two_vents ! 1)"
    "is_VentCard (ring_two_vents ! 2)" "\<not> is_VentCard (ring_two_vents ! 3)"
    by (simp_all add: ring_two_vents_def new_card_def is_VentCard_def)
  have u: "[0..<4] = [0, 1, 2, 3::nat]" by (simp add: upt_rec)
  have V: "[1, 2] = filter (\<lambda>i. is_VentCard (ring_two_vents ! i)) [0..<length ring_two_vents]"
    unfolding len u using v by simp
  have ok: "length [1, 2 :: nat] \<le> 1 \<or> (\<exists>j<length ring_two_vents. \<not> is_VentCard (ring_two_vents ! j))"
    using v(1) len by (intro disjI2 exI[of _ 0]) simp
  have f1: "first_non_vent ring_two_vents 3 1 = Some 3"
    "first_non_vent ring_two_vents 2 1 = Some 3"
    "first_non_vent ring_two_vents 1 (- 1) = Some 0"
    "first_non_vent ring_two_vents 0 (- 1) = Some 0"
    unfolding first_non_vent_def len u using v by simp_all
  from configure_neighbors_vent_rerouting[OF V ok]
  obtain cards' where c1: "configure_neighbors ring_two_vents = Some (Inr cards')"
    and c2: "2 \<le> length [1, 2 :: nat] \<longrightarrow> (\<forall>p<length [1, 2 :: nat].
            clk_wise_neighbor (cards' ! ([1, 2] ! p))
              = first_non_vent ring_two_vents (int ([1, 2] ! ((p + 1) mod length [1, 2 :: nat])) + 1) 1
          \<and> clk_wise_neighbor (cards' ! ([1, 2] ! p)) \<noteq> None
          \<and> counter_clk_wise_neighbor (cards' ! ([1, 2] ! p))
              = first_non_vent ring_two_vents
                  (int ([1, 2] ! nat ((int p - 1) mod int (length [1, 2 :: nat]))) - 1) (- 1)
          \<and> counter_clk_wise_neighbor (cards' ! ([1, 2] ! p)) \<noteq> None)"
    by blast
  have two: "2 \<le> length [1, 2 :: nat]" by simp
  note r = c2[rule_format, OF two]
  from r[of 0] r[of 1] f1
  have "clk_wise_neighbor (cards' ! 1) = Some 3
     \<and> counter_clk_wise_neighbor (cards' ! 1) = Some 0
     \<and> clk_wise_neighbor (cards' ! 2) = Some 3
     \<and> counter_clk_wise_neighbor (cards' ! 2) = Some 0"
    by simp
  with c1 show ?thesis by blast
qed

lemma length_vent_indices_of:
  "length (vent_indices_of cards) = length (filter is_VentCard cards)"
proof -
  have "filter is_VentCard (map snd (enumerate 0 cards))
      = map snd (filter (\<lambda>p. is_VentCard (snd p)) (enumerate 0 cards))"
    by (simp only: filter_map comp_def)
  then have "length (filter is_VentCard cards)
      = length (filter (\<lambda>p. is_VentCard (snd p)) (enumerate 0 cards))"
    by (simp only: map_snd_enumerate length_map)
  then show ?thesis by (simp add: vent_indices_of_def case_prod_unfold)
qed

lemma ring_succ_pred:
  assumes "a < n"
  shows "nat ((int a + 1) mod int n) < n"
    and "nat ((int a - 1) mod int n) < n"
    and "nat ((int (nat ((int a + 1) mod int n)) - 1) mod int n) = a"
    and "nat ((int (nat ((int a - 1) mod int n)) + 1) mod int n) = a"
proof -
  have n: "0 < n" using assms by simp
  show "nat ((int a + 1) mod int n) < n" "nat ((int a - 1) mod int n) < n"
    using n by (simp_all only: nat_mod_less)
  have "(int (nat ((int a + 1) mod int n)) - 1) mod int n = ((int a + 1) mod int n - 1) mod int n"
    using n by simp
  also have "\<dots> = (int a + 1 - 1) mod int n" by (rule mod_diff_left_eq)
  also have "\<dots> = int a" using assms by simp
  finally show "nat ((int (nat ((int a + 1) mod int n)) - 1) mod int n) = a" by simp
  have "(int (nat ((int a - 1) mod int n)) + 1) mod int n = ((int a - 1) mod int n + 1) mod int n"
    using n by simp
  also have "\<dots> = (int a - 1 + 1) mod int n" by (rule mod_add_left_eq)
  also have "\<dots> = int a" using assms by simp
  finally show "nat ((int (nat ((int a - 1) mod int n)) + 1) mod int n) = a" by simp
qed

text \<open>
  C7. With at most one vent, \<open>configure_neighbors\<close> returns a ring in which the two
  neighbour relations are inverse to each other: the clockwise neighbour \<open>B\<close> of every
  card \<open>A\<close> has \<open>A\<close> as its counter-clockwise neighbour, and the counter-clockwise
  neighbour \<open>B\<close> of every card \<open>A\<close> has \<open>A\<close> as its clockwise neighbour.
\<close>

theorem few_vents_neighbors_symmetric:
  assumes "length (filter is_VentCard cards) \<le> 1"
  shows "\<exists>cards'. configure_neighbors cards = Some (Inr cards') \<and> length cards' = length cards
     \<and> (\<forall>a<length cards. \<exists>b<length cards.
            clk_wise_neighbor (cards' ! a) = Some b
          \<and> counter_clk_wise_neighbor (cards' ! b) = Some a)
     \<and> (\<forall>a<length cards. \<exists>b<length cards.
            counter_clk_wise_neighbor (cards' ! a) = Some b
          \<and> clk_wise_neighbor (cards' ! b) = Some a)"
proof -
  from assms have "configure_neighbors cards = Some (Inr (base_wiring cards))"
    by (simp add: configure_neighbors_few_vents length_vent_indices_of)
  moreover have "\<exists>b<length cards.
            clk_wise_neighbor (base_wiring cards ! a) = Some b
          \<and> counter_clk_wise_neighbor (base_wiring cards ! b) = Some a" if "a < length cards" for a
    using ring_succ_pred(1,3)[OF that] that by (simp add: nth_base_wiring)
  moreover have "\<exists>b<length cards.
            counter_clk_wise_neighbor (base_wiring cards ! a) = Some b
          \<and> clk_wise_neighbor (base_wiring cards ! b) = Some a" if "a < length cards" for a
    using ring_succ_pred(2,4)[OF that] that by (simp add: nth_base_wiring)
  ultimately show ?thesis by simp
qed

theorem few_vents_neighbors_symmetric_witness:
  "length (filter is_VentCard ring_one_vent) \<le> 1
   \<and> (\<exists>cards'. configure_neighbors ring_one_vent = Some (Inr cards')
        \<and> (\<exists>b<3. clk_wise_neighbor (cards' ! 2) = Some b
                 \<and> counter_clk_wise_neighbor (cards' ! b) = Some 2)
        \<and> (\<exists>b<3. counter_clk_wise_neighbor (cards' ! 0) = Some b
                 \<and> clk_wise_neighbor (cards' ! b) = Some 0))"
proof -
  have h: "length (filter is_VentCard ring_one_vent) \<le> 1"
    by (simp add: ring_one_vent_def new_card_def is_VentCard_def)
  have len: "length ring_one_vent = 3" by (simp add: ring_one_vent_def)
  from few_vents_neighbors_symmetric[OF h] show ?thesis
    unfolding len using h by auto
qed

text \<open>
  C4. The builder does not return on every non-empty sequence: on a ring of two vent
  cards \<open>_walk_to_non_vent\<close> walks forever, so \<open>configure_neighbors\<close> never returns
  (\<open>None\<close>). More generally (\<open>configure_neighbors_all_vents\<close>) it never returns on two
  or more cards that are all vents.
\<close>

theorem configure_neighbors_only_vents_never_returns:
  "configure_neighbors ring_only_vents = None"
proof (rule configure_neighbors_all_vents)
  show "2 \<le> length ring_only_vents" by (simp add: ring_only_vents_def)
  show "\<forall>i<length ring_only_vents. is_VentCard (ring_only_vents ! i)"
    by (simp add: ring_only_vents_def new_card_def is_VentCard_def less_Suc_eq)
qed

section \<open>Properties of the configuration model\<close>

lemma rotate_AmoebaColor:
  "rotate_enum_value AmoebaColor_members RED = Inr BLUE"
  "rotate_enum_value AmoebaColor_members BLUE = Inr RED"
  by (simp_all add: rotate_enum_value_def AmoebaColor_members_def)

lemma rotate_Pattern:
  "rotate_enum_value Pattern_members STRIPED = Inr DOTTY"
  "rotate_enum_value Pattern_members DOTTY = Inr STRIPED"
  by (simp_all add: rotate_enum_value_def Pattern_members_def)

lemma rotate_Eye:
  "rotate_enum_value Eye_members SINGLE = Inr DOUBLE"
  "rotate_enum_value Eye_members DOUBLE = Inr SINGLE"
  by (simp_all add: rotate_enum_value_def Eye_members_def)

lemma rotate_next_color: "rotate_enum_value AmoebaColor_members c = Inr (next_color c)"
  by (cases c) (simp_all add: rotate_AmoebaColor next_color_def)

lemma rotate_next_pattern: "rotate_enum_value Pattern_members p = Inr (next_pattern p)"
  by (cases p) (simp_all add: rotate_Pattern next_pattern_def)

lemma rotate_next_eye: "rotate_enum_value Eye_members e = Inr (next_eye e)"
  by (cases e) (simp_all add: rotate_Eye next_eye_def)

lemma evolve_closed_form:
  "evolve self ec ep ee =
     Inr \<lparr>color = (if ec then next_color (color self) else color self),
          pattern = (if ep then next_pattern (pattern self) else pattern self),
          eye = (if ee then next_eye (eye self) else eye self)\<rparr>"
  by (cases self) (simp add: evolve_def rotate_next_color rotate_next_pattern rotate_next_eye)

lemma next_color_involution [simp]: "next_color (next_color c) = c" "next_color c \<noteq> c"
  by (cases c; simp add: next_color_def)+

lemma next_pattern_involution [simp]: "next_pattern (next_pattern p) = p" "next_pattern p \<noteq> p"
  by (cases p; simp add: next_pattern_def)+

lemma next_eye_involution [simp]: "next_eye (next_eye e) = e" "next_eye e \<noteq> e"
  by (cases e; simp add: next_eye_def)+

lemma evolve_times_add2:
  "evolve_times (Suc (Suc k)) self ec ep ee = evolve_times k self ec ep ee"
  by (cases self) (simp add: evolve_closed_form)

lemma evolve_times_period:
  assumes "ec \<or> ep \<or> ee"
  shows "(evolve_times k self ec ep ee = Inr self) = (k mod 2 = 0)"
proof (induction k rule: less_induct)
  case (less k)
  show ?case
  proof (cases k)
    case 0
    then show ?thesis by simp
  next
    case (Suc j)
    show ?thesis
    proof (cases j)
      case 0
      have "\<lparr>color = (if ec then next_color (color self) else color self),
          pattern = (if ep then next_pattern (pattern self) else pattern self),
          eye = (if ee then next_eye (eye self) else eye self)\<rparr> \<noteq> self"
        using assms by (cases self) auto
      with 0 Suc show ?thesis by (simp add: evolve_closed_form)
    next
      case (Suc i)
      with \<open>k = Suc j\<close> less.IH[of i] show ?thesis
        by (simp only: evolve_times_add2) presburger
    qed
  qed
qed

lemma evolve_color_only:
  "\<exists>i. index_of AmoebaColor_members (color c) = Some i
      \<and> evolve c True False False
          = Inr (c\<lparr>color := AmoebaColor_members ! ((i + 1) mod length AmoebaColor_members)\<rparr>)"
  by (cases c; cases "color c")
     (simp_all add: evolve_closed_form next_color_def AmoebaColor_members_def)

lemma evolve_pattern_only:
  "\<exists>i. index_of Pattern_members (pattern c) = Some i
      \<and> evolve c False True False
          = Inr (c\<lparr>pattern := Pattern_members ! ((i + 1) mod length Pattern_members)\<rparr>)"
  by (cases c; cases "pattern c")
     (simp_all add: evolve_closed_form next_pattern_def Pattern_members_def)

lemma evolve_eye_only:
  "\<exists>i. index_of Eye_members (eye c) = Some i
      \<and> evolve c False False True
          = Inr (c\<lparr>eye := Eye_members ! ((i + 1) mod length Eye_members)\<rparr>)"
  by (cases c; cases "eye c")
     (simp_all add: evolve_closed_form next_eye_def Eye_members_def)

text \<open>
  C8. On every configuration, \<open>evolve\<close> with a single axis selected moves that axis
  to the member after it in declaration order, wrapping after the last (the other two
  axes stay), and \<open>k\<close> repeated calls give back the original configuration exactly
  when \<open>k\<close> is a multiple of the number of members of the axis, which is two for each
  of the three axes; in particular two calls restore it and one does not.
\<close>

theorem evolve_single_axis_cycles:
  "(\<exists>i. index_of AmoebaColor_members (color c) = Some i
      \<and> evolve c True False False
          = Inr (c\<lparr>color := AmoebaColor_members ! ((i + 1) mod length AmoebaColor_members)\<rparr>))
   \<and> (\<exists>i. index_of Pattern_members (pattern c) = Some i
      \<and> evolve c False True False
          = Inr (c\<lparr>pattern := Pattern_members ! ((i + 1) mod length Pattern_members)\<rparr>))
   \<and> (\<exists>i. index_of Eye_members (eye c) = Some i
      \<and> evolve c False False True
          = Inr (c\<lparr>eye := Eye_members ! ((i + 1) mod length Eye_members)\<rparr>))
   \<and> (evolve_times k c True False False = Inr c) = (k mod length AmoebaColor_members = 0)
   \<and> (evolve_times k c False True False = Inr c) = (k mod length Pattern_members = 0)
   \<and> (evolve_times k c False False True = Inr c) = (k mod length Eye_members = 0)
   \<and> length AmoebaColor_members = 2 \<and> length Pattern_members = 2 \<and> length Eye_members = 2
   \<and> evolve_times 2 c True False False = Inr c
   \<and> evolve_times 2 c False True False = Inr c
   \<and> evolve_times 2 c False False True = Inr c"
proof -
  have len: "length AmoebaColor_members = 2" "length Pattern_members = 2" "length Eye_members = 2"
    by (simp_all add: AmoebaColor_members_def Pattern_members_def Eye_members_def)
  have per: "(evolve_times k c True False False = Inr c) = (k mod 2 = 0)"
    "(evolve_times k c False True False = Inr c) = (k mod 2 = 0)"
    "(evolve_times k c False False True = Inr c) = (k mod 2 = 0)"
    by (simp_all add: evolve_times_period)
  have two: "evolve_times 2 c True False False = Inr c"
    "evolve_times 2 c False True False = Inr c"
    "evolve_times 2 c False False True = Inr c"
    by (simp_all add: evolve_times_period)
  show ?thesis
    unfolding len using evolve_color_only[of c] evolve_pattern_only[of c] evolve_eye_only[of c]
      per two
    by (simp only: len simp_thms)
qed

theorem evolve_single_axis_cycles_witness:
  "evolve \<lparr>color = BLUE, pattern = STRIPED, eye = SINGLE\<rparr> True False False
     = Inr \<lparr>color = RED, pattern = STRIPED, eye = SINGLE\<rparr>
   \<and> evolve_times 2 \<lparr>color = BLUE, pattern = STRIPED, eye = SINGLE\<rparr> False False True
     = Inr \<lparr>color = BLUE, pattern = STRIPED, eye = SINGLE\<rparr>
   \<and> evolve_times 3 \<lparr>color = BLUE, pattern = STRIPED, eye = SINGLE\<rparr> False True False
     \<noteq> Inr \<lparr>color = BLUE, pattern = STRIPED, eye = SINGLE\<rparr>"
proof -
  have len: "length AmoebaColor_members = 2" "length Pattern_members = 2" "length Eye_members = 2"
    by (simp_all add: AmoebaColor_members_def Pattern_members_def Eye_members_def)
  have m: "(3::nat) mod 2 \<noteq> 0" by simp
  show ?thesis
    using evolve_single_axis_cycles[of "\<lparr>color = BLUE, pattern = STRIPED, eye = SINGLE\<rparr>" 3] m
    unfolding len by (simp add: AmoebaColor_members_def)
qed

section \<open>Properties of the traversal\<close>

lemma is_matched_frame:
  "\<exists>m s'. is_matched s crd configuration = (Inr m, s') \<and> ring s' = ring s
     \<and> length (cfgs s') = length (cfgs s)
     \<and> (\<forall>a. a \<noteq> configuration \<longrightarrow> cfgs s' ! a = cfgs s ! a)"
  by (cases "kind crd") (auto simp: is_matched_def evolve_closed_form)

lemma fully_wired_ring: "ring s' = ring s \<Longrightarrow> fully_wired s' = fully_wired s"
  unfolding fully_wired_def by (erule subst) (rule refl)

lemma get_next_wired:
  assumes "fully_wired s" "current_card < length (ring s)"
  shows "\<exists>next_card. get_next (ring s ! current_card) direction = Inr next_card
     \<and> next_card < length (ring s)"
proof -
  from assms have "ring s ! current_card \<in> set (ring s)" by simp
  with assms(1) show ?thesis
    unfolding fully_wired_def list_all_iff get_next_def
    by (auto split: option.splits)
qed

lemma length_checks: "length (checks n s configuration current_card direction) \<le> n"
proof (induction n arbitrary: s current_card)
  case 0
  then show ?case by simp
next
  case (Suc n)
  obtain m s' where m: "is_matched s (ring s ! current_card) configuration = (Inr m, s')"
    using is_matched_frame by blast
  show ?case using m Suc.IH by (auto split: sum.splits)
qed

lemma run_loop_frame:
  "run_loop n s configuration current_card direction = (res, s') \<Longrightarrow>
     ring s' = ring s \<and> length (cfgs s') = length (cfgs s)
     \<and> (\<forall>a. a \<noteq> configuration \<longrightarrow> cfgs s' ! a = cfgs s ! a)"
proof (induction n arbitrary: s current_card)
  case 0
  then show ?case by simp
next
  case (Suc n)
  obtain m s1 where m: "is_matched s (ring s ! current_card) configuration = (Inr m, s1)"
    "ring s1 = ring s" "length (cfgs s1) = length (cfgs s)"
    "\<forall>a. a \<noteq> configuration \<longrightarrow> cfgs s1 ! a = cfgs s ! a"
    using is_matched_frame by blast
  show ?case
  proof (cases m)
    case True
    with Suc.prems m show ?thesis by auto
  next
    case False
    show ?thesis
    proof (cases "get_next (ring s1 ! current_card) direction")
      case (Inl e)
      with Suc.prems m False show ?thesis by auto
    next
      case (Inr next_card)
      with Suc.prems m(1) False
      have "run_loop n s1 configuration next_card direction = (res, s')" by simp
      from Suc.IH[OF this] m(2,3,4) show ?thesis by simp
    qed
  qed
qed

lemma run_loop_checks:
  assumes "fully_wired s" "current_card < length (ring s)"
  shows "\<exists>res s'. run_loop n s configuration current_card direction = (Inr res, s')
     \<and> (case res of
          Some crd \<Rightarrow> crd < length (ring s)
             \<and> checks n s configuration current_card direction \<noteq> []
             \<and> last (checks n s configuration current_card direction) = (crd, True)
             \<and> (\<forall>x\<in>set (butlast (checks n s configuration current_card direction)). \<not> snd x)
        | None \<Rightarrow> length (checks n s configuration current_card direction) = n
             \<and> (\<forall>x\<in>set (checks n s configuration current_card direction). \<not> snd x))"
  using assms
proof (induction n arbitrary: s current_card)
  case 0
  then show ?case by simp
next
  case (Suc n)
  obtain m s1 where m: "is_matched s (ring s ! current_card) configuration = (Inr m, s1)"
    "ring s1 = ring s"
    using is_matched_frame by blast
  show ?case
  proof (cases m)
    case True
    have rl: "run_loop (Suc n) s configuration current_card direction = (Inr (Some current_card), s1)"
      using m(1) True by simp
    have ch: "checks (Suc n) s configuration current_card direction = [(current_card, True)]"
      using m(1) True by simp
    show ?thesis unfolding rl ch using Suc.prems(2) by simp
  next
    case False
    have w1: "fully_wired s1" using Suc.prems(1) fully_wired_ring[OF m(2)] by simp
    have "current_card < length (ring s1)" using Suc.prems(2) m(2) by simp
    from get_next_wired[OF w1 this, of direction]
    obtain next_card where nx: "get_next (ring s1 ! current_card) direction = Inr next_card"
      "next_card < length (ring s1)" by blast
    from Suc.IH[OF w1 nx(2)] obtain res s' where
      r: "run_loop n s1 configuration next_card direction = (Inr res, s')"
      and c: "(case res of
          Some crd \<Rightarrow> crd < length (ring s1)
             \<and> checks n s1 configuration next_card direction \<noteq> []
             \<and> last (checks n s1 configuration next_card direction) = (crd, True)
             \<and> (\<forall>x\<in>set (butlast (checks n s1 configuration next_card direction)). \<not> snd x)
        | None \<Rightarrow> length (checks n s1 configuration next_card direction) = n
             \<and> (\<forall>x\<in>set (checks n s1 configuration next_card direction). \<not> snd x))"
      by blast
    have rl: "run_loop (Suc n) s configuration current_card direction = (Inr res, s')"
      using m(1) False nx(1) r by simp
    have ch: "checks (Suc n) s configuration current_card direction
        = (current_card, False) # checks n s1 configuration next_card direction"
      using m(1) False nx(1) by simp
    show ?thesis
    proof (cases res)
      case None
      with c show ?thesis unfolding rl ch by simp
    next
      case (Some crd)
      with c m(2) show ?thesis unfolding rl ch by simp
    qed
  qed
qed

lemma checks_linked:
  assumes "fully_wired s" "current_card < length (ring s)"
  shows "(0 < n \<longrightarrow> fst (hd (checks n s configuration current_card direction)) = current_card)
     \<and> (\<forall>k. Suc k < length (checks n s configuration current_card direction) \<longrightarrow>
            get_next (ring s ! fst (checks n s configuration current_card direction ! k)) direction
              = Inr (fst (checks n s configuration current_card direction ! Suc k)))"
  using assms
proof (induction n arbitrary: s current_card)
  case 0
  then show ?case by simp
next
  case (Suc n)
  obtain m s1 where m: "is_matched s (ring s ! current_card) configuration = (Inr m, s1)"
    "ring s1 = ring s"
    using is_matched_frame by blast
  show ?case
  proof (cases m)
    case True
    with m show ?thesis by simp
  next
    case False
    have w1: "fully_wired s1" using Suc.prems(1) fully_wired_ring[OF m(2)] by simp
    from get_next_wired[OF w1, of current_card direction] Suc.prems(2) m(2)
    obtain next_card where nx: "get_next (ring s1 ! current_card) direction = Inr next_card"
      "next_card < length (ring s1)" by auto
    let ?rest = "checks n s1 configuration next_card direction"
    have ch: "checks (Suc n) s configuration current_card direction
        = (current_card, False) # ?rest"
      using m(1) False nx(1) by simp
    note IH = Suc.IH[OF w1 nx(2)]
    have "get_next (ring s ! fst (((current_card, False) # ?rest) ! k)) direction
              = Inr (fst (((current_card, False) # ?rest) ! Suc k))"
      if k: "Suc k < length ((current_card, False) # ?rest)" for k
    proof (cases k)
      case 0
      with k have "0 < n" by (cases n) auto
      with IH have "fst (hd ?rest) = next_card" by simp
      moreover have "?rest \<noteq> []" using k 0 by auto
      ultimately have "fst (?rest ! 0) = next_card" by (simp add: hd_conv_nth)
      with 0 nx(1) m(2) show ?thesis by simp
    next
      case (Suc j)
      with k IH m(2) show ?thesis by simp
    qed
    then show ?thesis unfolding ch by simp
  qed
qed

lemma small_ring_configured:
  "configure_neighbors [new_card 1 (LabCard LAB_RED), new_card 2 (AmoebaCard 0)]
     = Some (Inr (ring small_ring))"
  by (simp add: configure_neighbors_def link_vents_def vent_indices_of_def base_wiring_def
      small_ring_def new_card_def is_VentCard_def)

text \<open>
  C6. On a fully wired ring, from any entry card, with any travelling configuration
  and direction, \<open>run_experiment\<close> returns without an error. It calls \<open>is_matched\<close>
  on at most 100 cards: the entry card first, then each time the neighbour in the
  direction of travel. If it returns a card, that card is the last one checked and the
  only one that matched; if it returns no card, exactly 100 cards were checked and none
  matched.
\<close>

theorem run_experiment_bounded:
  assumes "fully_wired s" "start_lab < length (ring s)"
  shows "\<exists>res s'. run_experiment s configuration start_lab direction = (Inr res, s')
     \<and> length (checks MAX_STEPS_PER_RUN s configuration start_lab direction) \<le> 100
     \<and> fst (hd (checks MAX_STEPS_PER_RUN s configuration start_lab direction)) = start_lab
     \<and> (\<forall>k. Suc k < length (checks MAX_STEPS_PER_RUN s configuration start_lab direction) \<longrightarrow>
            get_next (ring s ! fst (checks MAX_STEPS_PER_RUN s configuration start_lab direction ! k))
                direction
              = Inr (fst (checks MAX_STEPS_PER_RUN s configuration start_lab direction ! Suc k)))
     \<and> (case res of
          Some crd \<Rightarrow> crd < length (ring s)
             \<and> checks MAX_STEPS_PER_RUN s configuration start_lab direction \<noteq> []
             \<and> last (checks MAX_STEPS_PER_RUN s configuration start_lab direction) = (crd, True)
             \<and> (\<forall>x\<in>set (butlast (checks MAX_STEPS_PER_RUN s configuration start_lab direction)).
                   \<not> snd x)
        | None \<Rightarrow> length (checks MAX_STEPS_PER_RUN s configuration start_lab direction) = 100
             \<and> (\<forall>x\<in>set (checks MAX_STEPS_PER_RUN s configuration start_lab direction).
                   \<not> snd x))"
proof -
  have M: "MAX_STEPS_PER_RUN = 100" by (simp add: MAX_STEPS_PER_RUN_def)
  from run_loop_checks[OF assms, of MAX_STEPS_PER_RUN configuration direction]
  obtain res s' where r: "run_loop MAX_STEPS_PER_RUN s configuration start_lab direction = (Inr res, s')"
    and c: "(case res of
          Some crd \<Rightarrow> crd < length (ring s)
             \<and> checks MAX_STEPS_PER_RUN s configuration start_lab direction \<noteq> []
             \<and> last (checks MAX_STEPS_PER_RUN s configuration start_lab direction) = (crd, True)
             \<and> (\<forall>x\<in>set (butlast (checks MAX_STEPS_PER_RUN s configuration start_lab direction)).
                   \<not> snd x)
        | None \<Rightarrow> length (checks MAX_STEPS_PER_RUN s configuration start_lab direction) = MAX_STEPS_PER_RUN
             \<and> (\<forall>x\<in>set (checks MAX_STEPS_PER_RUN s configuration start_lab direction).
                   \<not> snd x))"
    by blast
  have l: "length (checks MAX_STEPS_PER_RUN s configuration start_lab direction) \<le> 100"
    using length_checks[of MAX_STEPS_PER_RUN s configuration start_lab direction] M by simp
  from checks_linked[OF assms, of MAX_STEPS_PER_RUN configuration direction] M
  have h: "fst (hd (checks MAX_STEPS_PER_RUN s configuration start_lab direction)) = start_lab"
    and k: "\<forall>k. Suc k < length (checks MAX_STEPS_PER_RUN s configuration start_lab direction) \<longrightarrow>
            get_next (ring s ! fst (checks MAX_STEPS_PER_RUN s configuration start_lab direction ! k))
                direction
              = Inr (fst (checks MAX_STEPS_PER_RUN s configuration start_lab direction ! Suc k))"
    by simp_all
  from c M have c': "(case res of
          Some crd \<Rightarrow> crd < length (ring s)
             \<and> checks MAX_STEPS_PER_RUN s configuration start_lab direction \<noteq> []
             \<and> last (checks MAX_STEPS_PER_RUN s configuration start_lab direction) = (crd, True)
             \<and> (\<forall>x\<in>set (butlast (checks MAX_STEPS_PER_RUN s configuration start_lab direction)).
                   \<not> snd x)
        | None \<Rightarrow> length (checks MAX_STEPS_PER_RUN s configuration start_lab direction) = 100
             \<and> (\<forall>x\<in>set (checks MAX_STEPS_PER_RUN s configuration start_lab direction).
                   \<not> snd x))"
    by (cases res) (simp_all only: option.case, simp_all)
  have "run_experiment s configuration start_lab direction = (Inr res, s')"
    using r by (simp add: run_experiment_def)
  with l h k c' show ?thesis by blast
qed

lemma small_ring_traveller_run:
  "run_experiment small_ring_traveller 1 0 CLK_WISE = (Inr None, small_ring_traveller)"
  by code_simp

theorem run_experiment_bounded_witness:
  "fully_wired small_ring_traveller \<and> 0 < length (ring small_ring_traveller)
   \<and> run_experiment small_ring_traveller 1 0 CLK_WISE = (Inr None, small_ring_traveller)
   \<and> length (checks MAX_STEPS_PER_RUN small_ring_traveller 1 0 CLK_WISE) = 100"
proof -
  have w: "fully_wired small_ring_traveller"
    by (simp add: fully_wired_def small_ring_traveller_def small_ring_def set_neighbors_def
        new_card_def)
  have l: "0 < length (ring small_ring_traveller)"
    by (simp add: small_ring_traveller_def small_ring_def)
  from run_experiment_bounded[OF w l, of 1 CLK_WISE] small_ring_traveller_run w l
  show ?thesis by auto
qed

section \<open>Properties of the Monte Carlo driver\<close>

lemma lab_cards_of_eq:
  "lab_cards_of cards = filter (\<lambda>i. is_LabCard (cards ! i)) [0..<length cards]"
  by (simp add: lab_cards_of_def enumerate_as_map filter_map comp_def)

lemma lab_cards_of_empty_iff:
  "(lab_cards_of cards = []) = (\<forall>crd\<in>set cards. \<not> is_LabCard crd)"
  unfolding lab_cards_of_eq filter_empty_conv
  by (auto simp: in_set_conv_nth) (meson nth_mem)

text \<open>
  C2. If no card of the sequence is a lab card, \<open>simulate\<close> raises the RuntimeError
  "No lab cards available to start experiments." whatever else the sequence holds and
  whatever the experiment count: no count mapping is returned, the random source is in
  the state it was given (and the result does not depend on the random source at all, so
  nothing was drawn), and no object was touched.
\<close>

theorem simulate_no_lab_cards:
  assumes "\<forall>crd\<in>set (ring s). \<not> is_LabCard crd"
  shows "simulate randbelow s r experiments = (Inl NoLabCards, s, r)"
  using assms by (simp add: simulate_def lab_cards_of_empty_iff)

theorem simulate_no_lab_cards_witness:
  "lab_cards_of (ring \<lparr>ring = ring_only_vents, cfgs = []\<rparr>) = []
   \<and> simulate counter_randbelow \<lparr>ring = ring_only_vents, cfgs = []\<rparr> (0::nat) 10
       = (Inl NoLabCards, \<lparr>ring = ring_only_vents, cfgs = []\<rparr>, 0)"
proof -
  have h: "\<forall>crd\<in>set (ring \<lparr>ring = ring_only_vents, cfgs = []\<rparr>). \<not> is_LabCard crd"
    by (simp add: ring_only_vents_def new_card_def is_LabCard_def)
  from simulate_no_lab_cards[OF h, of counter_randbelow 0 10] h show ?thesis
    by (simp add: lab_cards_of_empty_iff)
qed

text \<open>
  C10. If the sequence has a lab card and the experiment count is zero or negative,
  \<open>simulate\<close> runs no trial and returns, without an error, the mapping that gives
  every card of the sequence the count 0; the random source is in the state it was
  given (nothing was drawn) and no object was touched.
\<close>

theorem simulate_no_experiments:
  assumes "\<exists>crd\<in>set (ring s). is_LabCard crd" and "experiments \<le> 0"
  shows "simulate randbelow s r experiments = (Inr (replicate (length (ring s)) 0), s, r)
     \<and> trial_outcomes randbelow (lab_cards_of (ring s)) (nat experiments) s r = []"
  using assms by (simp add: simulate_def lab_cards_of_empty_iff)

theorem simulate_no_experiments_witness:
  "simulate counter_randbelow small_ring (0::nat) (- 3) = (Inr [0, 0], small_ring, 0)"
proof -
  have h: "\<exists>crd\<in>set (ring small_ring). is_LabCard crd"
    by (simp add: small_ring_def new_card_def set_neighbors_def is_LabCard_def)
  have l: "length (ring small_ring) = 2" by (simp add: small_ring_def)
  have r: "replicate 2 (0::int) = [0, 0]" by (simp add: numeral_2_eq_2)
  from simulate_no_experiments[OF h, of "- 3" counter_randbelow 0] show ?thesis
    unfolding l r by simp
qed

lemma run_experiment_frame:
  "run_experiment s configuration start_lab direction = (res, s') \<Longrightarrow>
     ring s' = ring s \<and> length (cfgs s') = length (cfgs s)
     \<and> (\<forall>a. a \<noteq> configuration \<longrightarrow> cfgs s' ! a = cfgs s ! a)"
  unfolding run_experiment_def by (rule run_loop_frame)

lemma run_experiment_fresh:
  assumes "run_experiment (s\<lparr>cfgs := cfgs s @ [c]\<rparr>) (length (cfgs s)) start_lab direction = (res, s2)"
  shows "ring s2 = ring s \<and> (\<exists>c'. cfgs s2 = cfgs s @ [c'])"
proof -
  from run_experiment_frame[OF assms]
  have r: "ring s2 = ring s" and l: "length (cfgs s2) = Suc (length (cfgs s))"
    and o: "\<forall>a. a \<noteq> length (cfgs s) \<longrightarrow> cfgs s2 ! a = (cfgs s @ [c]) ! a"
    by simp_all
  have "cfgs s2 = cfgs s @ [cfgs s2 ! length (cfgs s)]"
  proof (rule nth_equalityI)
    show "length (cfgs s2) = length (cfgs s @ [cfgs s2 ! length (cfgs s)])" using l by simp
    fix i assume "i < length (cfgs s2)"
    then show "cfgs s2 ! i = (cfgs s @ [cfgs s2 ! length (cfgs s)]) ! i"
      using o l by (cases "i = length (cfgs s)") (simp_all add: nth_append)
  qed
  with r show ?thesis by blast
qed

lemma trial_frame:
  assumes "trial randbelow lab_cards s r = (res, s', r')"
  shows "ring s' = ring s \<and> (cfgs s' = cfgs s \<or> (\<exists>c. cfgs s' = cfgs s @ [c]))"
proof -
  obtain x1 r1 where c1: "choice randbelow AmoebaColor_members r = (x1, r1)" by (cases "choice randbelow AmoebaColor_members r")
  obtain x2 r2 where c2: "choice randbelow Pattern_members r1 = (x2, r2)" by (cases "choice randbelow Pattern_members r1")
  obtain x3 r3 where c3: "choice randbelow Eye_members r2 = (x3, r3)" by (cases "choice randbelow Eye_members r2")
  obtain x4 r4 where c4: "choice randbelow lab_cards r3 = (x4, r4)" by (cases "choice randbelow lab_cards r3")
  obtain x5 r5 where c5: "choice randbelow Direction_members r4 = (x5, r5)" by (cases "choice randbelow Direction_members r4")
  show ?thesis
  proof (cases x1)
    case (Inl e) with assms c1 show ?thesis by (simp add: trial_def)
  next
    case a: (Inr c)
    show ?thesis
    proof (cases x2)
      case (Inl e) with assms c1 c2 a show ?thesis by (simp add: trial_def)
    next
      case b: (Inr p)
      show ?thesis
      proof (cases x3)
        case (Inl e) with assms c1 c2 c3 a b show ?thesis by (simp add: trial_def)
      next
        case d: (Inr e)
        let ?s1 = "s\<lparr>cfgs := cfgs s @ [\<lparr>color = c, pattern = p, eye = e\<rparr>]\<rparr>"
        show ?thesis
        proof (cases x4)
          case (Inl e') with assms c1 c2 c3 c4 a b d show ?thesis
            by (auto simp: trial_def Let_def)
        next
          case f: (Inr start_lab)
          show ?thesis
          proof (cases x5)
            case (Inl e') with assms c1 c2 c3 c4 c5 a b d f show ?thesis
              by (auto simp: trial_def Let_def)
          next
            case g: (Inr direction)
            obtain m s2 where re: "run_experiment ?s1 (length (cfgs s)) start_lab direction = (m, s2)"
              by (cases "run_experiment ?s1 (length (cfgs s)) start_lab direction")
            with assms c1 c2 c3 c4 c5 a b d f g have "s' = s2"
              by (simp add: trial_def Let_def)
            with run_experiment_fresh[OF re] show ?thesis by simp
          qed
        qed
      qed
    qed
  qed
qed

lemma sim_loop_frame:
  "sim_loop randbelow lab_cards k points s r = (res, s', r') \<Longrightarrow>
     ring s' = ring s \<and> (\<exists>ys. cfgs s' = cfgs s @ ys)"
proof (induction k arbitrary: points s r)
  case 0
  then show ?case by simp
next
  case (Suc k)
  obtain m s1 r1 where t: "trial randbelow lab_cards s r = (m, s1, r1)"
    by (cases "trial randbelow lab_cards s r")
  from trial_frame[OF t] have f1: "ring s1 = ring s" "\<exists>ys. cfgs s1 = cfgs s @ ys" by auto
  show ?case
  proof (cases m)
    case (Inl e)
    with Suc.prems t f1 show ?thesis by simp
  next
    case (Inr matched_card)
    show ?thesis
    proof (cases matched_card)
      case None
      with Suc.prems t Inr have "sim_loop randbelow lab_cards k points s1 r1 = (res, s', r')"
        by simp
      from Suc.IH[OF this] f1 show ?thesis by auto
    next
      case (Some crd)
      show ?thesis
      proof (cases "crd < length points")
        case True
        with Suc.prems t Inr Some
        have "sim_loop randbelow lab_cards k (points[crd := points ! crd + 1]) s1 r1 = (res, s', r')"
          by simp
        from Suc.IH[OF this] f1 show ?thesis by auto
      next
        case False
        with Suc.prems t Inr Some f1 show ?thesis by simp
      qed
    qed
  qed
qed

lemma sum_list_bump:
  fixes points :: "int list"
  assumes "c < length points"
  shows "sum_list (points[c := points ! c + 1]) = sum_list points + 1"
  using assms
proof (induction points arbitrary: c)
  case Nil
  then show ?case by simp
next
  case (Cons x xs)
  then show ?case by (cases c) simp_all
qed

lemma sim_loop_counts:
  "sim_loop randbelow lab_cards k points s r = (Inr points', s', r') \<Longrightarrow>
     length points' = length points
     \<and> length (trial_outcomes randbelow lab_cards k s r) = k
     \<and> sum_list points' = sum_list points
          + int (length (filter (\<lambda>m. m \<noteq> None) (trial_outcomes randbelow lab_cards k s r)))"
proof (induction k arbitrary: points s r)
  case 0
  then show ?case by simp
next
  case (Suc k)
  obtain m s1 r1 where t: "trial randbelow lab_cards s r = (m, s1, r1)"
    by (cases "trial randbelow lab_cards s r")
  show ?case
  proof (cases m)
    case (Inl e)
    with Suc.prems t show ?thesis by simp
  next
    case (Inr matched_card)
    have out: "trial_outcomes randbelow lab_cards (Suc k) s r
        = matched_card # trial_outcomes randbelow lab_cards k s1 r1"
      using t Inr by simp
    show ?thesis
    proof (cases matched_card)
      case None
      with Suc.prems t Inr have "sim_loop randbelow lab_cards k points s1 r1 = (Inr points', s', r')"
        by simp
      from Suc.IH[OF this] show ?thesis unfolding out None by simp
    next
      case (Some crd)
      show ?thesis
      proof (cases "crd < length points")
        case True
        with Suc.prems t Inr Some
        have "sim_loop randbelow lab_cards k (points[crd := points ! crd + 1]) s1 r1
            = (Inr points', s', r')"
          by simp
        from Suc.IH[OF this] sum_list_bump[OF True] show ?thesis unfolding out Some by simp
      next
        case False
        with Suc.prems t Inr Some show ?thesis by simp
      qed
    qed
  qed
qed

lemma evolving_ring_configured:
  "configure_neighbors [new_card 1 (LabCard LAB_RED), new_card 2 (EvolutionCard True False False),
       new_card 3 (AmoebaCard 0)]
     = Some (Inr (ring evolving_ring))"
  by (simp add: configure_neighbors_def link_vents_def vent_indices_of_def base_wiring_def
      evolving_ring_def new_card_def is_VentCard_def)

lemma evolving_ring_run:
  "simulate counter_randbelow evolving_ring (0::nat) 3 =
     (Inr [0, 0, 2],
      evolving_ring\<lparr>cfgs := cfgs evolving_ring @
         [\<lparr>color = BLUE, pattern = DOTTY, eye = SINGLE\<rparr>,
          \<lparr>color = RED, pattern = STRIPED, eye = DOUBLE\<rparr>,
          \<lparr>color = BLUE, pattern = DOTTY, eye = SINGLE\<rparr>]\<rparr>, 15)"
  by code_simp

lemma evolving_ring_outcomes:
  "trial_outcomes counter_randbelow (lab_cards_of (ring evolving_ring)) 3 evolving_ring (0::nat)
     = [Some 2, None, Some 2]"
  by code_simp

text \<open>
  C9. No card is modified by a run of \<open>simulate\<close>, by a trial or by a traversal.
  After \<open>simulate\<close> (also when it raises) the card sequence is the one before, so
  every card has its kind, line number, payload and both neighbours, and every
  configuration object that existed before the run (the amoeba cards' targets among
  them) has its value. A trial leaves the cards as they are and at most adds its own
  fresh configuration object to the store. A traversal leaves the cards as they are and
  writes to no configuration object other than the travelling one it was handed.
\<close>

theorem simulate_frame:
  "(simulate randbelow s r experiments = (res, s', r') \<longrightarrow>
      ring s' = ring s \<and> length (cfgs s) \<le> length (cfgs s')
      \<and> (\<forall>a<length (cfgs s). cfgs s' ! a = cfgs s ! a))
   \<and> (trial randbelow lab_cards s r = (res1, s1, r1) \<longrightarrow>
      ring s1 = ring s \<and> (cfgs s1 = cfgs s \<or> (\<exists>c. cfgs s1 = cfgs s @ [c])))
   \<and> (run_experiment s configuration start_lab direction = (res2, s2) \<longrightarrow>
      ring s2 = ring s \<and> length (cfgs s2) = length (cfgs s)
      \<and> (\<forall>a. a \<noteq> configuration \<longrightarrow> cfgs s2 ! a = cfgs s ! a))"
proof (intro conjI impI)
  assume sim: "simulate randbelow s r experiments = (res, s', r')"
  have f: "ring s' = ring s \<and> (\<exists>ys. cfgs s' = cfgs s @ ys)"
  proof (cases "lab_cards_of (ring s) = []")
    case True
    with sim show ?thesis by (simp add: simulate_def)
  next
    case False
    with sim have "sim_loop randbelow (lab_cards_of (ring s)) (nat experiments)
        (replicate (length (ring s)) 0) s r = (res, s', r')"
      by (simp add: simulate_def)
    then show ?thesis by (rule sim_loop_frame)
  qed
  then obtain ys where ys: "cfgs s' = cfgs s @ ys" by blast
  from f show "ring s' = ring s" by simp
  show "length (cfgs s) \<le> length (cfgs s')" unfolding ys by simp
  show "\<forall>a<length (cfgs s). cfgs s' ! a = cfgs s ! a" unfolding ys by (simp add: nth_append)
next
  assume t: "trial randbelow lab_cards s r = (res1, s1, r1)"
  from trial_frame[OF t] show "ring s1 = ring s"
    and "cfgs s1 = cfgs s \<or> (\<exists>c. cfgs s1 = cfgs s @ [c])" by simp_all
next
  assume e: "run_experiment s configuration start_lab direction = (res2, s2)"
  from run_experiment_frame[OF e] show "ring s2 = ring s"
    and "length (cfgs s2) = length (cfgs s)"
    and "\<forall>a. a \<noteq> configuration \<longrightarrow> cfgs s2 ! a = cfgs s ! a" by simp_all
qed

theorem simulate_frame_witness:
  "simulate counter_randbelow evolving_ring (0::nat) 3 =
     (Inr [0, 0, 2],
      evolving_ring\<lparr>cfgs := cfgs evolving_ring @
         [\<lparr>color = BLUE, pattern = DOTTY, eye = SINGLE\<rparr>,
          \<lparr>color = RED, pattern = STRIPED, eye = DOUBLE\<rparr>,
          \<lparr>color = BLUE, pattern = DOTTY, eye = SINGLE\<rparr>]\<rparr>, 15)
   \<and> ring (evolving_ring\<lparr>cfgs := cfgs evolving_ring @
         [\<lparr>color = BLUE, pattern = DOTTY, eye = SINGLE\<rparr>,
          \<lparr>color = RED, pattern = STRIPED, eye = DOUBLE\<rparr>,
          \<lparr>color = BLUE, pattern = DOTTY, eye = SINGLE\<rparr>]\<rparr>) = ring evolving_ring
   \<and> cfgs (evolving_ring\<lparr>cfgs := cfgs evolving_ring @
         [\<lparr>color = BLUE, pattern = DOTTY, eye = SINGLE\<rparr>,
          \<lparr>color = RED, pattern = STRIPED, eye = DOUBLE\<rparr>,
          \<lparr>color = BLUE, pattern = DOTTY, eye = SINGLE\<rparr>]\<rparr>) ! 0 = cfgs evolving_ring ! 0"
proof -
  have l: "0 < length (cfgs evolving_ring)" by (simp add: evolving_ring_def)
  from simulate_frame[of counter_randbelow evolving_ring 0 3, THEN conjunct1, rule_format,
      OF evolving_ring_run] l evolving_ring_run
  show ?thesis by blast
qed

lemma length_filter_eq_iff:
  "(length (filter P xs) = length xs) = (\<forall>x\<in>set xs. P x)"
proof -
  have "length (filter P xs) + length (filter (\<lambda>x. \<not> P x) xs) = length xs"
    by (rule sum_length_filter_compl)
  then have "(length (filter P xs) = length xs) = (filter (\<lambda>x. \<not> P x) xs = [])"
    by auto
  then show ?thesis by (simp add: filter_empty_conv)
qed

text \<open>
  C1 (amended). For every run of \<open>simulate\<close> that returns a count mapping: the run made
  \<open>max 0 experiments\<close> trials, the sum of the counts is the number of trials whose
  traversal returned a card, hence at most \<open>max 0 experiments\<close>, and it equals
  \<open>max 0 experiments\<close> exactly when no trial's traversal ended without a match.
  (For a negative experiment count the sum is 0, which is more than the count.)
\<close>

theorem simulate_counts_bounded:
  assumes "simulate randbelow s r experiments = (Inr points, s', r')"
  shows "length points = length (ring s)
     \<and> length (trial_outcomes randbelow (lab_cards_of (ring s)) (nat experiments) s r)
          = nat experiments
     \<and> sum_list points
          = int (length (filter (\<lambda>m. m \<noteq> None)
                  (trial_outcomes randbelow (lab_cards_of (ring s)) (nat experiments) s r)))
     \<and> sum_list points \<le> max 0 experiments
     \<and> (sum_list points = max 0 experiments)
          = (None \<notin> set (trial_outcomes randbelow (lab_cards_of (ring s)) (nat experiments) s r))"
proof -
  let ?outs = "trial_outcomes randbelow (lab_cards_of (ring s)) (nat experiments) s r"
  have "lab_cards_of (ring s) \<noteq> []"
    using assms by (auto simp: simulate_def)
  with assms have "sim_loop randbelow (lab_cards_of (ring s)) (nat experiments)
        (replicate (length (ring s)) 0) s r = (Inr points, s', r')"
    by (simp add: simulate_def)
  note c = sim_loop_counts[OF this]
  have z: "sum_list (replicate (length (ring s)) (0::int)) = 0"
    by (simp add: sum_list_replicate)
  have len: "length points = length (ring s)" using c by simp
  have n: "length ?outs = nat experiments" using c by blast
  have "sum_list points = sum_list (replicate (length (ring s)) 0)
      + int (length (filter (\<lambda>m. m \<noteq> None) ?outs))"
    using c by blast
  then have sum: "sum_list points = int (length (filter (\<lambda>m. m \<noteq> None) ?outs))"
    unfolding z by simp
  have mx: "max 0 experiments = int (length ?outs)" using n by simp
  have le: "length (filter (\<lambda>m. m \<noteq> None) ?outs) \<le> length ?outs" by (rule length_filter_le)
  have eq: "(length (filter (\<lambda>m. m \<noteq> None) ?outs) = length ?outs) = (None \<notin> set ?outs)"
    unfolding length_filter_eq_iff by (metis option.exhaust option.distinct(1))
  have "sum_list points \<le> max 0 experiments" unfolding sum mx using le by simp
  moreover have "(sum_list points = max 0 experiments) = (None \<notin> set ?outs)"
    unfolding sum mx using eq by simp
  ultimately show ?thesis using len n sum by blast
qed

theorem simulate_counts_bounded_witness:
  "simulate counter_randbelow evolving_ring (0::nat) 3 =
     (Inr [0, 0, 2],
      evolving_ring\<lparr>cfgs := cfgs evolving_ring @
         [\<lparr>color = BLUE, pattern = DOTTY, eye = SINGLE\<rparr>,
          \<lparr>color = RED, pattern = STRIPED, eye = DOUBLE\<rparr>,
          \<lparr>color = BLUE, pattern = DOTTY, eye = SINGLE\<rparr>]\<rparr>, 15)
   \<and> trial_outcomes counter_randbelow (lab_cards_of (ring evolving_ring)) 3 evolving_ring (0::nat)
       = [Some 2, None, Some 2]
   \<and> sum_list [0, 0, 2 :: int] \<le> max 0 3
   \<and> sum_list [0, 0, 2 :: int] \<noteq> max 0 3"
proof -
  note t = simulate_counts_bounded[OF evolving_ring_run]
  have n: "nat 3 = 3" by simp
  from t evolving_ring_outcomes evolving_ring_run show ?thesis
    unfolding n by simp
qed

text \<open>
  C1 as stated fails for a negative experiment count: on a ring with a lab card, a run
  with \<open>experiments = -1\<close> completes with every count 0, and the sum 0 is not at most
  \<open>-1\<close>.
\<close>

theorem simulate_counts_negative_experiments:
  "(\<exists>crd\<in>set (ring small_ring). is_LabCard crd)
   \<and> simulate counter_randbelow small_ring (0::nat) (- 1) = (Inr [0, 0], small_ring, 0)
   \<and> \<not> sum_list [0, 0 :: int] \<le> - 1"
proof -
  have h: "\<exists>crd\<in>set (ring small_ring). is_LabCard crd"
    by (simp add: small_ring_def new_card_def set_neighbors_def is_LabCard_def)
  have l: "lab_cards_of (ring small_ring) \<noteq> []"
    using h by (simp add: lab_cards_of_empty_iff)
  have "simulate counter_randbelow small_ring (0::nat) (- 1)
      = (Inr (replicate (length (ring small_ring)) 0), small_ring, 0)"
    using l by (simp add: simulate_def)
  moreover have "replicate (length (ring small_ring)) (0::int) = [0, 0]"
    by (simp add: small_ring_def)
  ultimately show ?thesis using h by simp
qed

end
